theory Spec2Isabelle
  imports Main "HOL-Library.Char_ord" "HOL-Library.Signed_Division"
begin

section \<open>Bytes and constants\<close>

text \<open>
  An \<^verbatim>\<open>unsigned char\<close> of the C source is a \<^typ>\<open>char\<close> (eight bits), a byte buffer
  together with its length is a \<^typ>\<open>string\<close>. The Telnet command bytes are the members
  of the anonymous \<^verbatim>\<open>enum\<close> at the top of \<^verbatim>\<open>bpq.c\<close>.
\<close>

definition IAC :: char where "IAC = CHR 0xFF"
definition DONT :: char where "DONT = CHR 0xFE"
definition DO :: char where "DO = CHR 0xFD"  \<comment> \<open>\<^verbatim>\<open>DO_\<close> in the source\<close>
definition WONT :: char where "WONT = CHR 0xFC"
definition WILL :: char where "WILL = CHR 0xFB"
definition SB :: char where "SB = CHR 0xFA"
definition SE :: char where "SE = CHR 0xF0"

definition CR :: char where "CR = CHR 0x0D"
definition LF :: char where "LF = CHR 0x0A"
definition NUL :: char where "NUL = CHR 0x00"

lemmas telnet_consts = IAC_def DONT_def DO_def WONT_def WILL_def SB_def SE_def

section \<open>Telnet filter\<close>

text \<open>
  \<^verbatim>\<open>typedef struct { int state; unsigned char cmd; } telnet_parser_t;\<close>
  The parser states are the integers 0 (data), 1 (after IAC), 2 (option byte expected),
  3 (inside a subnegotiation) and 4 (IAC inside a subnegotiation).
\<close>

record telnet_parser_t =
  tp_state :: int
  tp_cmd :: char

text \<open>
  \<^verbatim>\<open>telnet_send3\<close> writes three bytes to the socket. The transport is modelled as the
  string of bytes written so far; \<^verbatim>\<open>write_all\<close> is taken to succeed (on a failed write
  the program leaves through \<^verbatim>\<open>die_cleanup\<close>).
\<close>

definition telnet_send3 :: "char \<Rightarrow> char \<Rightarrow> char \<Rightarrow> string \<Rightarrow> string" where
  "telnet_send3 a b c tx = tx @ [a, b, c]"

text \<open>\<^verbatim>\<open>if (o<outcap) out[o++]=ch;\<close> on the output buffer filled so far.\<close>

definition put :: "nat \<Rightarrow> string \<Rightarrow> char \<Rightarrow> string" where
  "put outcap out ch = (if length out < outcap then out @ [ch] else out)"

text \<open>
  One pass through the body of the \<^verbatim>\<open>for\<close> loop of \<^verbatim>\<open>telnet_filter_and_reply\<close>: the
  \<^verbatim>\<open>switch\<close> on the parser state. The switch has no default case, so a state outside
  0..4 drops the byte and stays. The triple is the parser, the output buffer and the
  bytes sent to the peer.
\<close>

definition telnet_byte ::
  "nat \<Rightarrow> telnet_parser_t \<times> string \<times> string \<Rightarrow> char \<Rightarrow> telnet_parser_t \<times> string \<times> string"
where
  "telnet_byte outcap acc ch =
    (case acc of (tp, out, tx) \<Rightarrow>
      if tp_state tp = 0 then
        (if ch = IAC then (tp\<lparr>tp_state := 1\<rparr>, out, tx)
         else (tp, put outcap out ch, tx))
      else if tp_state tp = 1 then
        (if ch = IAC then (tp\<lparr>tp_cmd := ch, tp_state := 0\<rparr>, put outcap out IAC, tx)
         else if ch = DO \<or> ch = DONT \<or> ch = WILL \<or> ch = WONT
           then (tp\<lparr>tp_cmd := ch, tp_state := 2\<rparr>, out, tx)
         else if ch = SB then (tp\<lparr>tp_cmd := ch, tp_state := 3\<rparr>, out, tx)
         else if ch = SE then (tp\<lparr>tp_cmd := ch, tp_state := 0\<rparr>, out, tx)
         else (tp\<lparr>tp_cmd := ch, tp_state := 0\<rparr>, out, tx))
      else if tp_state tp = 2 then
        (if tp_cmd tp = DO then (tp\<lparr>tp_state := 0\<rparr>, out, telnet_send3 IAC WONT ch tx)
         else if tp_cmd tp = WILL then (tp\<lparr>tp_state := 0\<rparr>, out, telnet_send3 IAC DONT ch tx)
         else (tp\<lparr>tp_state := 0\<rparr>, out, tx))
      else if tp_state tp = 3 then
        (if ch = IAC then (tp\<lparr>tp_state := 4\<rparr>, out, tx) else (tp, out, tx))
      else if tp_state tp = 4 then
        (if ch = SE then (tp\<lparr>tp_state := 0\<rparr>, out, tx) else (tp\<lparr>tp_state := 3\<rparr>, out, tx))
      else (tp, out, tx))"

text \<open>The \<^verbatim>\<open>for\<close> loop over the input bytes.\<close>

fun telnet_loop ::
  "nat \<Rightarrow> telnet_parser_t \<times> string \<times> string \<Rightarrow> string \<Rightarrow> telnet_parser_t \<times> string \<times> string"
where
  "telnet_loop outcap acc [] = acc"
| "telnet_loop outcap acc (ch # rest) = telnet_loop outcap (telnet_byte outcap acc ch) rest"

text \<open>
  \<^verbatim>\<open>telnet_filter_and_reply(tp, in, len, out, outcap)\<close>: the result is the updated
  parser, the \<^verbatim>\<open>o\<close> bytes stored in \<^verbatim>\<open>out\<close>, and the reply bytes written to the socket
  during the call.
\<close>

definition telnet_filter_and_reply ::
  "telnet_parser_t \<Rightarrow> string \<Rightarrow> nat \<Rightarrow> telnet_parser_t \<times> string \<times> string"
where
  "telnet_filter_and_reply tp inp outcap = telnet_loop outcap (tp, [], []) inp"

section \<open>Newline normalizer\<close>

text \<open>
  The \<^verbatim>\<open>for\<close> loop of \<^verbatim>\<open>normalize_incoming\<close>; the test
  \<^verbatim>\<open>i+1<len && in[i+1]=='\n'\<close> looks one byte ahead inside the same buffer and the
  extra \<^verbatim>\<open>i++\<close> skips it.
\<close>

fun normalize_loop :: "nat \<Rightarrow> string \<Rightarrow> string \<Rightarrow> string" where
  "normalize_loop outcap out [] = out"
| "normalize_loop outcap out (ch # rest) =
    (if ch = CR then
       (case rest of
          [] \<Rightarrow> normalize_loop outcap (put outcap out LF) rest
        | nx # rest' \<Rightarrow>
            if nx = LF then normalize_loop outcap (put outcap out LF) rest'
            else normalize_loop outcap (put outcap out LF) rest)
     else if ch = LF then normalize_loop outcap (put outcap out LF) rest
     else normalize_loop outcap (put outcap out ch) rest)"

definition normalize_incoming :: "string \<Rightarrow> nat \<Rightarrow> string" where
  "normalize_incoming inp outcap = normalize_loop outcap [] inp"


section \<open>RX accumulator\<close>

text \<open>\<^verbatim>\<open>memchr(s, c, n)\<close> on the \<open>n\<close> bytes \<open>s\<close>: the offset of the first \<open>c\<close>, if any.\<close>

fun memchr :: "string \<Rightarrow> char \<Rightarrow> nat option" where
  "memchr [] c = None"
| "memchr (b # bs) c = (if b = c then Some 0 else map_option Suc (memchr bs c))"

lemma memchr_Some_less: "memchr s c = Some k \<Longrightarrow> k < length s"
  by (induction s arbitrary: k) (auto split: if_splits)

text \<open>
  The extraction loop of \<^verbatim>\<open>main\<close> (lines 558 to 582): \<open>buf\<close> is \<^verbatim>\<open>rx_acc[0..rx_len)\<close>;
  each round looks for the next line feed from \<^verbatim>\<open>consumed\<close>, emits the \<^verbatim>\<open>linelen\<close> bytes
  before it (the buffer \<^verbatim>\<open>line8\<close>) and skips the line feed. The result is the emitted
  lines in order and the final value of \<^verbatim>\<open>consumed\<close>. Each emitted line is decoded and
  appended to the store by the caller; the extraction itself does not depend on that.
\<close>

function extract_lines :: "string \<Rightarrow> nat \<Rightarrow> string list \<times> nat" where
  "extract_lines buf consumed =
    (case memchr (drop consumed buf) LF of
       None \<Rightarrow> ([], consumed)
     | Some linelen \<Rightarrow>
         (case extract_lines buf (consumed + linelen + 1) of
            (ls, consumed') \<Rightarrow> (take linelen (drop consumed buf) # ls, consumed')))"
  by pat_completeness auto
termination
proof (relation "measure (\<lambda>(buf, consumed). length buf - consumed)")
  show "wf (measure (\<lambda>(buf, consumed). length buf - consumed))" by simp
next
  fix buf :: string and consumed linelen :: nat
  assume "memchr (drop consumed buf) LF = Some linelen"
  from memchr_Some_less [OF this]
  show "((buf, consumed + linelen + 1), (buf, consumed)) \<in> measure (\<lambda>(buf, consumed). length buf - consumed)"
    by simp
qed

declare extract_lines.simps [simp del]

text \<open>
  Lines 546 to 589 of \<^verbatim>\<open>main\<close>: append the \<open>m\<close> normalized bytes to the accumulator, extract
  the complete lines, keep the unterminated tail. \<^verbatim>\<open>realloc\<close> keeps the contents and is
  taken to succeed (the program leaves through \<^verbatim>\<open>die_cleanup\<close> otherwise), so the
  capacity \<^verbatim>\<open>rx_cap\<close> is not part of the model.
\<close>

definition rx_accumulate :: "string \<Rightarrow> string \<Rightarrow> string list \<times> string" where
  "rx_accumulate rx_acc out =
    (let buf = rx_acc @ out in
     case extract_lines buf 0 of
       (ls, consumed) \<Rightarrow> (ls, if consumed > 0 then drop consumed buf else buf))"

text \<open>The guard \<^verbatim>\<open>if (m)\<close> around the accumulator: nothing happens on an empty chunk.\<close>

definition rx_feed :: "string \<Rightarrow> string \<Rightarrow> string list \<times> string" where
  "rx_feed rx_acc out = (if out = [] then ([], rx_acc) else rx_accumulate rx_acc out)"

text \<open>Successive reads: the chunks are fed in order, the emitted lines are collected.\<close>

fun rx_feed_all :: "string \<Rightarrow> string list \<Rightarrow> string list \<times> string" where
  "rx_feed_all rx_acc [] = ([], rx_acc)"
| "rx_feed_all rx_acc (out # outs) =
    (case rx_feed rx_acc out of
       (ls, rx_acc') \<Rightarrow>
         (case rx_feed_all rx_acc' outs of (ls', rx_acc'') \<Rightarrow> (ls @ ls', rx_acc'')))"

text \<open>
  The buffers of the receive path in \<^verbatim>\<open>main\<close>: \<^verbatim>\<open>unsigned char in[4096], tmp[65536], out[65536]\<close>.
\<close>

definition IN_CAP :: nat where "IN_CAP = 4096"
definition TMP_CAP :: nat where "TMP_CAP = 65536"
definition OUT_CAP :: nat where "OUT_CAP = 65536"

text \<open>
  Lines 542 to 589 of \<^verbatim>\<open>main\<close>: one socket read of \<open>inp\<close> goes through the Telnet filter, the
  normalizer and the accumulator. The result is the parser, the replies sent, the
  normalized bytes \<^verbatim>\<open>out[0..m)\<close>, the emitted lines and the accumulator.
\<close>

definition rx_read ::
  "telnet_parser_t \<Rightarrow> string \<Rightarrow> string \<Rightarrow> telnet_parser_t \<times> string \<times> string \<times> string list \<times> string"
where
  "rx_read tp rx_acc inp =
    (case telnet_filter_and_reply tp inp TMP_CAP of
       (tp', tmp, replies) \<Rightarrow>
         (let out = normalize_incoming tmp OUT_CAP in
          case rx_feed rx_acc out of
            (ls, rx_acc') \<Rightarrow> (tp', replies, out, ls, rx_acc')))"


text \<open>\<^verbatim>\<open>telnet_parser_t tp={0};\<close>\<close>

definition tp0 :: telnet_parser_t where "tp0 = \<lparr>tp_state = 0, tp_cmd = NUL\<rparr>"


section \<open>Wide strings\<close>

text \<open>
  A \<^verbatim>\<open>wchar_t\<close> is the number of its code point; a wide C string is the list of its
  characters before the terminating \<^verbatim>\<open>L'\\0'\<close>, so \<^verbatim>\<open>wcslen\<close> is \<^const>\<open>length\<close>. The libc
  functions \<^verbatim>\<open>wcwidth\<close> and \<^verbatim>\<open>iswpunct\<close> depend on the locale; they are parameters of the
  functions that call them.
\<close>

type_synonym wchar_t = nat
type_synonym wstring = "wchar_t list"

definition WSPACE :: wchar_t where "WSPACE = 32"  \<comment> \<open>\<^verbatim>\<open>L' '\<close>\<close>

section \<open>Wrapping\<close>

text \<open>\<^verbatim>\<open>int w = wcwidth(ch); if (w < 0) w = 1;\<close>\<close>

definition cell_width :: "(wchar_t \<Rightarrow> int) \<Rightarrow> wchar_t \<Rightarrow> int" where
  "cell_width wcwidth ch = (let w = wcwidth ch in if w < 0 then 1 else w)"

text \<open>
  The inner \<^verbatim>\<open>while\<close> loop of \<^verbatim>\<open>wrap_and_push_wide\<close>, entered with \<^verbatim>\<open>col=0\<close>,
  \<^verbatim>\<open>last_break=-1\<close> and \<^verbatim>\<open>col_at_last_break=0\<close>. The break opportunity is recorded before
  the overflow test, as in the source. The result is the values of \<^verbatim>\<open>i\<close>, \<^verbatim>\<open>col\<close>,
  \<^verbatim>\<open>overflow\<close>, \<^verbatim>\<open>last_break\<close> and \<^verbatim>\<open>col_at_last_break\<close> when the loop is left.
\<close>

function wrap_scan ::
  "(wchar_t \<Rightarrow> int) \<Rightarrow> (wchar_t \<Rightarrow> bool) \<Rightarrow> wstring \<Rightarrow> int \<Rightarrow>
   nat \<Rightarrow> int \<Rightarrow> int \<Rightarrow> int \<Rightarrow> nat \<times> int \<times> bool \<times> int \<times> int"
where
  "wrap_scan wcwidth iswpunct line width i col last_break col_at_last_break =
    (if i < length line then
       (let ch = line ! i;
            w = cell_width wcwidth ch;
            last_break' = (if ch = WSPACE \<or> iswpunct ch then int i else last_break);
            col_at_last_break' = (if ch = WSPACE \<or> iswpunct ch then col + w else col_at_last_break)
        in if col + w > width then (i, col, True, last_break', col_at_last_break')
           else if col + w = width then (i + 1, col + w, False, last_break', col_at_last_break')
           else wrap_scan wcwidth iswpunct line width (i + 1) (col + w) last_break' col_at_last_break')
     else (i, col, False, last_break, col_at_last_break))"
  by pat_completeness auto
termination
  by (relation "measure (\<lambda>(wcwidth, iswpunct, line, width, i, col, lb, clb). length line - i)") auto

declare wrap_scan.simps [simp del]

text \<open>\<^verbatim>\<open>while (end < len && line[end]==L' ') end++;\<close>\<close>

function skip_spaces :: "wstring \<Rightarrow> nat \<Rightarrow> nat" where
  "skip_spaces line e = (if e < length line \<and> line ! e = WSPACE then skip_spaces line (e + 1) else e)"
  by pat_completeness auto
termination
  by (relation "measure (\<lambda>(line, e). length line - e)") auto

declare skip_spaces.simps [simp del]

text \<open>The choice of \<^verbatim>\<open>end\<close> after the inner loop (lines 307 to 315).\<close>

definition segment_end :: "nat \<Rightarrow> nat \<times> int \<times> bool \<times> int \<times> int \<Rightarrow> nat" where
  "segment_end start scan =
    (case scan of (i, col, overflow, last_break, col_at_last_break) \<Rightarrow>
       if overflow then
         (if last_break \<ge> int start \<and> col_at_last_break > 0 then nat last_break + 1
          else if i = start then start + 1
          else i)
       else i)"


text \<open>\<^verbatim>\<open>wmemcpy(seg, line+start, seglen)\<close> with \<^verbatim>\<open>seglen = end - start\<close>.\<close>

definition segment :: "wstring \<Rightarrow> nat \<Rightarrow> nat \<Rightarrow> wstring" where
  "segment line start end = take (end - start) (drop start line)"

lemma wrap_scan_progress:
  "wrap_scan wcwidth iswpunct line width i col lb clb = (i', col', ov, lb', clb') \<Longrightarrow>
   i \<le> i' \<and> (\<not> ov \<longrightarrow> i < length line \<longrightarrow> i < i')"
proof (induction wcwidth iswpunct line width i col lb clb rule: wrap_scan.induct)
  case (1 wcwidth iswpunct line width i col lb clb)
  show ?case
  proof (cases "i < length line")
    case False
    with "1.prems" show ?thesis by (auto simp add: wrap_scan.simps [of _ _ _ _ i])
  next
    case True
    let ?w = "cell_width wcwidth (line ! i)"
    show ?thesis
    proof (cases "col + ?w > width \<or> col + ?w = width")
      case stop: True
      with True "1.prems" show ?thesis
        by (auto simp add: wrap_scan.simps [of _ _ _ _ i] Let_def split: if_splits)
    next
      case go: False
      with True "1.prems"
      have "wrap_scan wcwidth iswpunct line width (i + 1) (col + ?w)
          (if line ! i = WSPACE \<or> iswpunct (line ! i) then int i else lb)
          (if line ! i = WSPACE \<or> iswpunct (line ! i) then col + ?w else clb) = (i', col', ov, lb', clb')"
        by (simp add: wrap_scan.simps [of _ _ _ _ i] Let_def)
      from "1.IH" [OF True refl refl refl refl _ _ this] go show ?thesis by auto
    qed
  qed
qed

lemma segment_end_progress:
  assumes "start < length line"
  shows "start < segment_end start (wrap_scan wcwidth iswpunct line width start col lb clb)"
proof -
  obtain i' col' ov lb' clb'
    where scan: "wrap_scan wcwidth iswpunct line width start col lb clb = (i', col', ov, lb', clb')"
    by (cases "wrap_scan wcwidth iswpunct line width start col lb clb") auto
  from wrap_scan_progress [OF scan] assms show ?thesis
    by (auto simp: scan segment_end_def)
qed

lemma skip_spaces_ge: "e \<le> skip_spaces line e"
proof (induction line e rule: skip_spaces.induct)
  case (1 line e)
  then show ?case
    by (cases "e < length line \<and> line ! e = WSPACE") (auto simp: skip_spaces.simps [of line e])
qed

text \<open>
  The outer loop of \<^verbatim>\<open>wrap_and_push_wide\<close> from position \<open>i\<close>: the list of the segments
  handed to \<^verbatim>\<open>push_visual_w\<close>, in order. (\<^verbatim>\<open>malloc\<close> is taken to succeed.)
\<close>

function wrap_segments ::
  "(wchar_t \<Rightarrow> int) \<Rightarrow> (wchar_t \<Rightarrow> bool) \<Rightarrow> wstring \<Rightarrow> int \<Rightarrow> nat \<Rightarrow> wstring list"
where
  "wrap_segments wcwidth iswpunct line width i =
    (if i < length line then
       (let end = segment_end i (wrap_scan wcwidth iswpunct line width i 0 (- 1) 0)
        in segment line i end # wrap_segments wcwidth iswpunct line width (skip_spaces line end))
     else [])"
  by pat_completeness auto
termination
proof (relation "measure (\<lambda>(wcwidth, iswpunct, line, width, i). length line - i)")
  show "wf (measure (\<lambda>(wcwidth, iswpunct, line, width, i). length line - i))" by simp
next
  fix wcwidth :: "wchar_t \<Rightarrow> int" and iswpunct :: "wchar_t \<Rightarrow> bool"
    and line :: wstring and width :: int and i en :: nat
  assume lt: "i < length line"
    and en: "en = segment_end i (wrap_scan wcwidth iswpunct line width i 0 (- 1) 0)"
  from segment_end_progress [OF lt, of wcwidth iswpunct width 0 "- 1" 0] en have "i < en" by simp
  with skip_spaces_ge [of en line] have "i < skip_spaces line en" by simp
  with lt show "((wcwidth, iswpunct, line, width, skip_spaces line en), (wcwidth, iswpunct, line, width, i))
      \<in> measure (\<lambda>(wcwidth, iswpunct, line, width, i). length line - i)"
    by simp
qed

declare wrap_segments.simps [simp del]

text \<open>
  The display width of a visual line: the sum of the cell widths of its characters,
  unmeasurable characters counting as one cell. A break opportunity is a space or a
  punctuation character.
\<close>

definition disp_width :: "(wchar_t \<Rightarrow> int) \<Rightarrow> wstring \<Rightarrow> int" where
  "disp_width wcwidth seg = sum_list (map (cell_width wcwidth) seg)"

definition is_break :: "(wchar_t \<Rightarrow> bool) \<Rightarrow> wchar_t \<Rightarrow> bool" where
  "is_break iswpunct ch \<longleftrightarrow> ch = WSPACE \<or> iswpunct ch"

text \<open>A visual line fits the width, or it is a single character wider than the width.\<close>

definition fits :: "(wchar_t \<Rightarrow> int) \<Rightarrow> int \<Rightarrow> wstring \<Rightarrow> bool" where
  "fits wcwidth width seg \<longleftrightarrow>
     disp_width wcwidth seg \<le> width \<or> (\<exists>c. seg = [c] \<and> width < cell_width wcwidth c)"

text \<open>
  Instances of \<^verbatim>\<open>wcwidth\<close> and \<^verbatim>\<open>iswpunct\<close> for the examples. They agree with a UTF-8 locale
  of glibc on the characters used: ASCII letters and punctuation, the ideographic comma
  U+3001 and full stop U+3002 (punctuation, two cells) and the CJK ideographs U+4E00 to
  U+9FFF (two cells).
\<close>

definition wcwidth_ex :: "wchar_t \<Rightarrow> int" where
  "wcwidth_ex c = (if (0x3000 \<le> c \<and> c \<le> 0x303F) \<or> (0x4E00 \<le> c \<and> c \<le> 0x9FFF) then 2 else 1)"

definition iswpunct_ex :: "wchar_t \<Rightarrow> bool" where
  "iswpunct_ex c \<longleftrightarrow>
     (33 \<le> c \<and> c \<le> 47) \<or> (58 \<le> c \<and> c \<le> 64) \<or> (91 \<le> c \<and> c \<le> 96) \<or> (123 \<le> c \<and> c \<le> 126)
     \<or> c = 0x3001 \<or> c = 0x3002"

text \<open>The wide string of an ASCII string.\<close>

definition wcs :: "string \<Rightarrow> wstring" where
  "wcs s = map of_char s"

section \<open>Store and visual ring\<close>

text \<open>
  \<^verbatim>\<open>static wchar_t *store[STORE_MAX]; static int store_count;\<close> and the same for
  \<^verbatim>\<open>visual\<close>: an array with its count is the list of its first \<^verbatim>\<open>count\<close> entries. The record
  holds the globals of the display: \<^verbatim>\<open>rows\<close>, \<^verbatim>\<open>cols\<close>, the two rings and \<^verbatim>\<open>view_top\<close>.
  \<^verbatim>\<open>wcsdup\<close> and \<^verbatim>\<open>malloc\<close> are taken to succeed.
\<close>

definition STORE_MAX :: nat where "STORE_MAX = 20000"
definition VIS_MAX :: nat where "VIS_MAX = 200000"

record ui =
  rows :: int
  cols :: int
  store :: "wstring list"
  visual :: "wstring list"
  view_top :: int

definition store_count :: "ui \<Rightarrow> int" where
  "store_count u = int (length (store u))"

definition vis_count :: "ui \<Rightarrow> int" where
  "vis_count u = int (length (visual u))"

text \<open>\<^verbatim>\<open>int visible = rows-2; if (visible<1) visible=1;\<close>\<close>

definition visible :: "ui \<Rightarrow> int" where
  "visible u = (let v = rows u - 2 in if v < 1 then 1 else v)"

text \<open>\<^verbatim>\<open>int max_top = vis_count - visible; if (max_top<0) max_top=0;\<close>\<close>

definition max_top :: "ui \<Rightarrow> int" where
  "max_top u = (let m = vis_count u - visible u in if m < 0 then 0 else m)"

definition free_visual :: "ui \<Rightarrow> ui" where
  "free_visual u = u\<lparr>visual := []\<rparr>"

text \<open>
  \<^verbatim>\<open>push_visual_w\<close>: append, or on a full ring drop \<^verbatim>\<open>visual[0]\<close>, move the other
  \<^verbatim>\<open>VIS_MAX-1\<close> entries down, store the new line last and step \<^verbatim>\<open>view_top\<close> back.
\<close>

definition push_visual_w :: "wstring \<Rightarrow> ui \<Rightarrow> ui" where
  "push_visual_w s u =
    (if vis_count u < int VIS_MAX then u\<lparr>visual := visual u @ [s]\<rparr>
     else u\<lparr>visual := take (VIS_MAX - 1) (tl (visual u)) @ [s],
            view_top := (if view_top u > 0 then view_top u - 1 else view_top u)\<rparr>)"

text \<open>\<^verbatim>\<open>wrap_and_push_wide\<close>: the width is clamped to 1, then every segment is pushed.\<close>

definition wrap_and_push_wide ::
  "(wchar_t \<Rightarrow> int) \<Rightarrow> (wchar_t \<Rightarrow> bool) \<Rightarrow> wstring \<Rightarrow> int \<Rightarrow> ui \<Rightarrow> ui"
where
  "wrap_and_push_wide wcwidth iswpunct line width u =
    (let width = (if width < 1 then 1 else width)
     in foldl (\<lambda>u seg. push_visual_w seg u) u (wrap_segments wcwidth iswpunct line width 0))"

definition add_logical_line_w ::
  "(wchar_t \<Rightarrow> int) \<Rightarrow> (wchar_t \<Rightarrow> bool) \<Rightarrow> wstring \<Rightarrow> bool \<Rightarrow> ui \<Rightarrow> ui"
where
  "add_logical_line_w wcwidth iswpunct line follow u =
    (let u1 = (if store_count u < int STORE_MAX then u\<lparr>store := store u @ [line]\<rparr>
               else u\<lparr>store := take (STORE_MAX - 1) (tl (store u)) @ [line]\<rparr>);
         width = cols u1 - 1;
         width = (if width < 1 then 1 else width);
         u2 = wrap_and_push_wide wcwidth iswpunct line width u1
     in if follow then
          (let t = vis_count u2 - visible u2 in u2\<lparr>view_top := (if t < 0 then 0 else t)\<rparr>)
        else u2)"

definition reflow :: "(wchar_t \<Rightarrow> int) \<Rightarrow> (wchar_t \<Rightarrow> bool) \<Rightarrow> bool \<Rightarrow> ui \<Rightarrow> ui" where
  "reflow wcwidth iswpunct keep_bottom u =
    (let u1 = free_visual u;
         width = cols u1 - 1;
         width = (if width < 1 then 1 else width);
         u2 = foldl (\<lambda>u line. wrap_and_push_wide wcwidth iswpunct line width u) u1 (store u1)
     in if keep_bottom then
          (let t = vis_count u2 - visible u2 in u2\<lparr>view_top := (if t < 0 then 0 else t)\<rparr>)
        else
          (let t = (if view_top u2 > max_top u2 then max_top u2 else view_top u2)
           in u2\<lparr>view_top := (if t < 0 then 0 else t)\<rparr>))"

text \<open>\<^verbatim>\<open>render_out\<close> clamps \<^verbatim>\<open>view_top\<close> to \<^verbatim>\<open>max_top\<close> before drawing; drawing is not modelled.\<close>

definition render_out :: "ui \<Rightarrow> ui" where
  "render_out u = (if view_top u > max_top u then u\<lparr>view_top := max_top u\<rparr> else u)"

text \<open>\<^verbatim>\<open>view_top + visible >= vis_count-1\<close>: the test of \<^verbatim>\<open>is_following\<close>, also written out in \<^verbatim>\<open>main\<close>.\<close>

definition is_following :: "ui \<Rightarrow> bool" where
  "is_following u \<longleftrightarrow> view_top u + visible u \<ge> vis_count u - 1"

text \<open>
  The scrolling branches of the keyboard dispatch in \<^verbatim>\<open>main\<close> (\<^verbatim>\<open>KEY_PPAGE\<close>, \<^verbatim>\<open>KEY_NPAGE\<close>,
  \<^verbatim>\<open>KEY_HOME\<close>, \<^verbatim>\<open>KEY_END\<close>, \<^verbatim>\<open>KEY_UP\<close>, \<^verbatim>\<open>KEY_DOWN\<close>), each ending in \<^verbatim>\<open>render_out\<close>.
  \<^verbatim>\<open>vis/2\<close> divides a positive number, where C and HOL division agree.
\<close>

definition key_ppage :: "ui \<Rightarrow> ui" where
  "key_ppage u =
    (let t = view_top u - visible u div 2
     in render_out (u\<lparr>view_top := (if t < 0 then 0 else t)\<rparr>))"

definition key_npage :: "ui \<Rightarrow> ui" where
  "key_npage u =
    (let t = view_top u + visible u div 2
     in render_out (u\<lparr>view_top := (if t > max_top u then max_top u else t)\<rparr>))"

definition key_home :: "ui \<Rightarrow> ui" where
  "key_home u = render_out (u\<lparr>view_top := 0\<rparr>)"

definition key_end :: "ui \<Rightarrow> ui" where
  "key_end u =
    (let t = vis_count u - visible u
     in render_out (u\<lparr>view_top := (if t < 0 then 0 else t)\<rparr>))"

definition key_up :: "ui \<Rightarrow> ui" where
  "key_up u = render_out (if view_top u > 0 then u\<lparr>view_top := view_top u - 1\<rparr> else u)"

definition key_down :: "ui \<Rightarrow> ui" where
  "key_down u = render_out (if view_top u < max_top u then u\<lparr>view_top := view_top u + 1\<rparr> else u)"

text \<open>
  The resize block of \<^verbatim>\<open>main\<close> (also run after a resume from suspension): \<^verbatim>\<open>getmaxyx\<close>
  gives the new size, \<^verbatim>\<open>keep_bottom\<close> is computed with it, then \<^verbatim>\<open>reflow\<close> and
  \<^verbatim>\<open>render_out\<close>.
\<close>

definition resize :: "(wchar_t \<Rightarrow> int) \<Rightarrow> (wchar_t \<Rightarrow> bool) \<Rightarrow> int \<Rightarrow> int \<Rightarrow> ui \<Rightarrow> ui" where
  "resize wcwidth iswpunct r c u =
    (let u1 = u\<lparr>rows := r, cols := c\<rparr>;
         keep_bottom = is_following u1
     in render_out (reflow wcwidth iswpunct keep_bottom u1))"

text \<open>
  The operations on the display state, to speak about every sequence of them: the
  append of a logical line, a reflow, a resize, a render, and the six scroll keys.
\<close>

datatype ui_op =
    Append wstring bool
  | Reflow bool
  | Resize int int
  | Render
  | Page_Up | Page_Down | Home | End | Line_Up | Line_Down

fun ui_step :: "(wchar_t \<Rightarrow> int) \<Rightarrow> (wchar_t \<Rightarrow> bool) \<Rightarrow> ui \<Rightarrow> ui_op \<Rightarrow> ui" where
  "ui_step wcwidth iswpunct u (Append line follow) = add_logical_line_w wcwidth iswpunct line follow u"
| "ui_step wcwidth iswpunct u (Reflow keep_bottom) = reflow wcwidth iswpunct keep_bottom u"
| "ui_step wcwidth iswpunct u (Resize r c) = resize wcwidth iswpunct r c u"
| "ui_step wcwidth iswpunct u Render = render_out u"
| "ui_step wcwidth iswpunct u Page_Up = key_ppage u"
| "ui_step wcwidth iswpunct u Page_Down = key_npage u"
| "ui_step wcwidth iswpunct u Home = key_home u"
| "ui_step wcwidth iswpunct u End = key_end u"
| "ui_step wcwidth iswpunct u Line_Up = key_up u"
| "ui_step wcwidth iswpunct u Line_Down = key_down u"

text \<open>The display state at start: both rings empty, \<^verbatim>\<open>view_top=0\<close>.\<close>

definition ui_init :: "int \<Rightarrow> int \<Rightarrow> ui" where
  "ui_init r c = \<lparr>rows = r, cols = c, store = [], visual = [], view_top = 0\<rparr>"

text \<open>The bounds of the rings and of the scroll position.\<close>

definition ui_inv :: "ui \<Rightarrow> bool" where
  "ui_inv u \<longleftrightarrow>
     length (store u) \<le> STORE_MAX \<and> length (visual u) \<le> VIS_MAX
     \<and> 0 \<le> view_top u \<and> view_top u \<le> max 0 (vis_count u - visible u)"

text \<open>A display state with both rings full, for the examples.\<close>

definition ui_full :: ui where
  "ui_full = \<lparr>rows = 24, cols = 80, store = replicate 20000 [], visual = replicate 200000 [], view_top = 5\<rparr>"

section \<open>Time\<close>

text \<open>
  \<^verbatim>\<open>struct timespec\<close> and \<^verbatim>\<open>since_ms\<close>. The C division truncates towards zero
  (\<^const>\<open>signed_divide\<close> on \<^typ>\<open>int\<close>); the \<^verbatim>\<open>long\<close> arithmetic is taken not to overflow.
\<close>

record timespec =
  tv_sec :: int
  tv_nsec :: int

definition since_ms :: "timespec \<Rightarrow> timespec \<Rightarrow> int" where
  "since_ms a b = (tv_sec b - tv_sec a) * 1000 + (tv_nsec b - tv_nsec a) sdiv 1000000"

text \<open>A clock reading of whole milliseconds, for the examples.\<close>

definition at_ms :: "int \<Rightarrow> timespec" where
  "at_ms ms = \<lparr>tv_sec = ms div 1000, tv_nsec = (ms mod 1000) * 1000000\<rparr>"

section \<open>C strings\<close>

text \<open>
  A \<^verbatim>\<open>char\<close> buffer read as a C string ends at its first NUL byte (\<^verbatim>\<open>strlen\<close>); the same
  for a wide string (\<^verbatim>\<open>wcslen\<close>).
\<close>

definition cstr :: "string \<Rightarrow> string" where
  "cstr buf = takeWhile (\<lambda>c. c \<noteq> NUL) buf"

definition wcstr :: "wstring \<Rightarrow> wstring" where
  "wcstr buf = takeWhile (\<lambda>c. c \<noteq> 0) buf"

text \<open>
  \<^verbatim>\<open>tolower\<close> of libc on an \<^verbatim>\<open>unsigned char\<close>, as in the C locale and in UTF-8 locales: the
  ASCII capitals map to the small letters, every other byte to itself.
\<close>

definition tolower :: "char \<Rightarrow> char" where
  "tolower c =
    (case map_of (zip ''ABCDEFGHIJKLMNOPQRSTUVWXYZ'' ''abcdefghijklmnopqrstuvwxyz'') c of
       Some l \<Rightarrow> l
     | None \<Rightarrow> c)"

text \<open>
  \<^verbatim>\<open>strncasecmp(a, b, n)\<close> of libc on two C strings: the difference of the first pair of
  bytes that differ after \<^verbatim>\<open>tolower\<close>, the end of a string counting as NUL; 0 when the
  first \<open>n\<close> bytes agree or both strings end.
\<close>

fun strncasecmp :: "string \<Rightarrow> string \<Rightarrow> nat \<Rightarrow> int" where
  "strncasecmp a b 0 = 0"
| "strncasecmp [] [] (Suc n) = 0"
| "strncasecmp [] (y # b) (Suc n) = - int (of_char (tolower y))"
| "strncasecmp (x # a) [] (Suc n) = int (of_char (tolower x))"
| "strncasecmp (x # a) (y # b) (Suc n) =
    (if tolower x = tolower y then strncasecmp a b n
     else int (of_char (tolower x)) - int (of_char (tolower y)))"

text \<open>
  The loop of \<^verbatim>\<open>istrstr\<close> over the positions \<open>p\<close> of the haystack; \<open>k\<close> is the offset of
  \<open>p\<close>. \<^verbatim>\<open>istrstr\<close> returns a pointer or \<^verbatim>\<open>NULL\<close>: here the offset of the match, or
  \<^const>\<open>None\<close>.
\<close>

fun istrstr_loop :: "string \<Rightarrow> string \<Rightarrow> nat \<Rightarrow> nat option" where
  "istrstr_loop [] needle k = None"
| "istrstr_loop (c # p) needle k =
    (if tolower c = tolower (hd needle) \<and> strncasecmp (c # p) needle (length needle) = 0
     then Some k
     else istrstr_loop p needle (Suc k))"

definition istrstr :: "string \<Rightarrow> string \<Rightarrow> nat option" where
  "istrstr hay needle = (if needle = [] then Some 0 else istrstr_loop hay needle 0)"

text \<open>\<^verbatim>\<open>strstr\<close> of libc: the offset of the first occurrence of the needle.\<close>

fun strstr :: "string \<Rightarrow> string \<Rightarrow> nat option" where
  "strstr [] needle = (if needle = [] then Some 0 else None)"
| "strstr (c # hay) needle =
    (if take (length needle) (c # hay) = needle then Some 0
     else map_option Suc (strstr hay needle))"

section \<open>Transmission helpers\<close>

text \<open>
  Every function that writes to the socket takes the bytes written so far and returns
  them extended. \<^verbatim>\<open>send_eol\<close> depends on the option \<^verbatim>\<open>opt_cr_only\<close>, the argument \<open>cr_only\<close>.
\<close>

definition send_eol :: "bool \<Rightarrow> string \<Rightarrow> string" where
  "send_eol cr_only tx = (if cr_only then tx @ [CR] else tx @ [CR, LF])"

fun write_telnet_safe :: "string \<Rightarrow> string \<Rightarrow> string" where
  "write_telnet_safe [] tx = tx"
| "write_telnet_safe (c # s) tx = write_telnet_safe s (if c = IAC then tx @ [c] @ [c] else tx @ [c])"

text \<open>\<^verbatim>\<open>send_line_utf8_telnet_safe(s)\<close>: the \<^verbatim>\<open>strlen(s)\<close> bytes of \<open>s\<close>, escaped, then the line end.\<close>

definition send_line_utf8_telnet_safe :: "bool \<Rightarrow> string \<Rightarrow> string \<Rightarrow> string" where
  "send_line_utf8_telnet_safe cr_only s tx = send_eol cr_only (write_telnet_safe (cstr s) tx)"

section \<open>Autologin\<close>

text \<open>
  \<^verbatim>\<open>autologin_prompt_t\<close> and \<^verbatim>\<open>autologin_blind_t\<close>. The flags \<^verbatim>\<open>enabled\<close> only hold 0 or 1
  and are booleans here; \<^verbatim>\<open>user\<close> and \<^verbatim>\<open>pass\<close> are the contents of the \<^verbatim>\<open>char[128]\<close>
  buffers.
\<close>

record autologin_prompt_t =
  al_enabled :: bool
  al_state :: int
  al_user :: string
  al_pass :: string

record autologin_blind_t =
  ab_enabled :: bool
  ab_stage :: int
  ab_t0 :: timespec
  ab_t_pass :: timespec
  ab_du_ms :: int
  ab_dp_ms :: int
  ab_user :: string
  ab_pass :: string

text \<open>\<^verbatim>\<open>autologin_try_prompt(al, recent)\<close>; \<open>recent\<close> is a C string.\<close>

definition autologin_try_prompt ::
  "bool \<Rightarrow> autologin_prompt_t \<Rightarrow> string \<Rightarrow> string \<Rightarrow> autologin_prompt_t \<times> string"
where
  "autologin_try_prompt cr_only al recent tx =
    (if \<not> al_enabled al \<or> al_state al \<ge> 2 then (al, tx)
     else if al_state al = 0 then
       (if istrstr recent ''login:'' \<noteq> None \<or> istrstr recent ''user:'' \<noteq> None
           \<or> istrstr recent ''callsign:'' \<noteq> None
        then (al\<lparr>al_state := 1\<rparr>, send_line_utf8_telnet_safe cr_only (al_user al) tx)
        else (al, tx))
     else if al_state al = 1 then
       (if istrstr recent ''password:'' \<noteq> None \<or> istrstr recent ''pass:'' \<noteq> None
           \<or> istrstr recent ''pw:'' \<noteq> None \<or> istrstr recent ''enter password'' \<noteq> None
        then (al\<lparr>al_state := 2\<rparr>, send_line_utf8_telnet_safe cr_only (al_pass al) tx)
        else (al, tx))
     else (al, tx))"

text \<open>
  \<^verbatim>\<open>autologin_try_blind(ab)\<close>; \<open>now\<close> is the reading of \<^verbatim>\<open>clock_gettime(CLOCK_MONOTONIC)\<close>
  in the call.
\<close>

definition autologin_try_blind ::
  "bool \<Rightarrow> autologin_blind_t \<Rightarrow> timespec \<Rightarrow> string \<Rightarrow> autologin_blind_t \<times> string"
where
  "autologin_try_blind cr_only ab now tx =
    (if \<not> ab_enabled ab \<or> ab_stage ab \<ge> 2 then (ab, tx)
     else
       (let ms = since_ms (ab_t0 ab) now in
        if ab_stage ab = 0 \<and> ms \<ge> ab_du_ms ab
          then (ab\<lparr>ab_stage := 1\<rparr>, send_line_utf8_telnet_safe cr_only (ab_user ab) tx)
        else if ab_stage ab = 1 \<and> ms \<ge> ab_dp_ms ab
          then (ab\<lparr>ab_stage := 2, ab_t_pass := now\<rparr>,
                send_line_utf8_telnet_safe cr_only (ab_pass ab) tx)
        else (ab, tx)))"

text \<open>
  Line 535 of \<^verbatim>\<open>main\<close>: \<^verbatim>\<open>if (alb.enabled && alb.stage<2) autologin_try_blind(&alb);\<close>
  The result is the state and the bytes sent by this evaluation.
\<close>

definition blind_step :: "bool \<Rightarrow> autologin_blind_t \<Rightarrow> timespec \<Rightarrow> autologin_blind_t \<times> string" where
  "blind_step cr_only ab now =
    (if ab_enabled ab \<and> ab_stage ab < 2 then autologin_try_blind cr_only ab now [] else (ab, []))"

text \<open>Successive evaluations, one per loop iteration, at the given clock readings.\<close>

fun blind_run :: "bool \<Rightarrow> autologin_blind_t \<Rightarrow> timespec list \<Rightarrow> autologin_blind_t \<times> string list" where
  "blind_run cr_only ab [] = (ab, [])"
| "blind_run cr_only ab (now # ts) =
    (case blind_step cr_only ab now of
       (ab', sent) \<Rightarrow>
         (case blind_run cr_only ab' ts of (ab'', sents) \<Rightarrow> (ab'', sent # sents)))"

text \<open>Line 496 of \<^verbatim>\<open>main\<close> and line 510: the delays and the start time of the blind strategy.\<close>

definition blind_init :: "autologin_blind_t \<Rightarrow> timespec \<Rightarrow> autologin_blind_t" where
  "blind_init ab t0 =
    (if ab_enabled ab then ab\<lparr>ab_du_ms := 150, ab_dp_ms := 1000, ab_t0 := t0\<rparr> else ab)"

section \<open>Locale-dependent libc functions\<close>

text \<open>
  The wide-character functions of libc that \<^verbatim>\<open>bpq.c\<close> calls depend on the locale set by
  \<^verbatim>\<open>setlocale(LC_ALL, "")\<close>; they are the fields of a record passed to the session loop.
  \<^verbatim>\<open>mbrtowc\<close> is given the rest of the C string and returns its result \<open>r\<close> and the wide
  character; \<^verbatim>\<open>wcrtomb\<close> returns the bytes of a wide character, or \<^const>\<open>None\<close> for
  \<^verbatim>\<open>(size_t)-1\<close>. The conversion state \<^verbatim>\<open>mbstate_t\<close> is not modelled: the program resets it
  after every error, and a UTF-8 or single-byte locale is back in the initial state after
  every complete character.
\<close>

datatype mb_ret = MB_len nat | MB_incomplete | MB_invalid

record libc =
  lc_wcwidth :: "wchar_t \<Rightarrow> int"
  lc_iswpunct :: "wchar_t \<Rightarrow> bool"
  lc_iswprint :: "wchar_t \<Rightarrow> bool"
  lc_towupper :: "wchar_t \<Rightarrow> wchar_t"
  lc_mbrtowc :: "string \<Rightarrow> mb_ret \<times> wchar_t"
  lc_wcrtomb :: "wchar_t \<Rightarrow> string option"

text \<open>An instance for the examples: the ASCII part of a UTF-8 locale.\<close>

definition libc_ex :: libc where
  "libc_ex =
    \<lparr>lc_wcwidth = wcwidth_ex,
     lc_iswpunct = iswpunct_ex,
     lc_iswprint = (\<lambda>c. 32 \<le> c \<and> c < 127),
     lc_towupper = (\<lambda>c. if 97 \<le> c \<and> c \<le> 122 then c - 32 else c),
     lc_mbrtowc = (\<lambda>p. case p of
                      [] \<Rightarrow> (MB_len 0, 0)
                    | c # _ \<Rightarrow> if (of_char c :: nat) < 128 then (MB_len 1, of_char c) else (MB_invalid, 0)),
     lc_wcrtomb = (\<lambda>wc. if wc < 128 then Some [char_of wc] else None)\<rparr>"

section \<open>Decoding and tab expansion\<close>

text \<open>
  The loop of \<^verbatim>\<open>utf8_to_wcs_lossy\<close> over the rest \<open>p\<close> of the C string. After an error
  (\<^verbatim>\<open>(size_t)-2\<close> or \<^verbatim>\<open>(size_t)-1\<close>) a question mark is stored and one byte skipped. For
  \<open>r = 0\<close> the source stores \<^verbatim>\<open>L'\\0'\<close> and advances by two. A pointer moved past the end of
  the string is the empty rest here.
\<close>

function utf8_loop :: "(string \<Rightarrow> mb_ret \<times> wchar_t) \<Rightarrow> string \<Rightarrow> wstring" where
  "utf8_loop mbrtowc p =
    (if p = [] then []
     else
       (case mbrtowc p of
          (MB_incomplete, wc) \<Rightarrow> 63 # utf8_loop mbrtowc (drop 1 p)
        | (MB_invalid, wc) \<Rightarrow> 63 # utf8_loop mbrtowc (drop 1 p)
        | (MB_len 0, wc) \<Rightarrow> 0 # utf8_loop mbrtowc (drop 2 p)
        | (MB_len (Suc r), wc) \<Rightarrow> wc # utf8_loop mbrtowc (drop (Suc r) p)))"
  by pat_completeness auto
termination
  by (relation "measure (\<lambda>(mbrtowc, p). length p)") auto

declare utf8_loop.simps [simp del]

text \<open>The wide string returned by \<^verbatim>\<open>utf8_to_wcs_lossy(s)\<close>, as its callers read it.\<close>

definition utf8_to_wcs_lossy :: "(string \<Rightarrow> mb_ret \<times> wchar_t) \<Rightarrow> string \<Rightarrow> wstring" where
  "utf8_to_wcs_lossy mbrtowc s = wcstr (utf8_loop mbrtowc (cstr s))"

definition TABSTOP :: int where "TABSTOP = 8"
definition WTAB :: wchar_t where "WTAB = 9"  \<comment> \<open>\<^verbatim>\<open>L'\\t'\<close>\<close>

text \<open>
  The loop of \<^verbatim>\<open>expand_tabs_wcs\<close> with the current column. \<^verbatim>\<open>col/tabstop\<close> divides a
  column that is not negative, where C and HOL division agree.
\<close>

fun expand_tabs_loop :: "(wchar_t \<Rightarrow> int) \<Rightarrow> int \<Rightarrow> int \<Rightarrow> wstring \<Rightarrow> wstring" where
  "expand_tabs_loop wcwidth tabstop col [] = []"
| "expand_tabs_loop wcwidth tabstop col (ch # rest) =
    (if ch = WTAB then
       (let next = (if tabstop > 0 then ((col div tabstop) + 1) * tabstop else col + 1);
            spaces = next - col;
            spaces = (if spaces < 1 then 1 else spaces)
        in replicate (nat spaces) WSPACE @ expand_tabs_loop wcwidth tabstop next rest)
     else ch # expand_tabs_loop wcwidth tabstop (col + cell_width wcwidth ch) rest)"

definition expand_tabs_wcs :: "(wchar_t \<Rightarrow> int) \<Rightarrow> wstring \<Rightarrow> int \<Rightarrow> wstring" where
  "expand_tabs_wcs wcwidth inp tabstop = expand_tabs_loop wcwidth tabstop 0 (wcstr inp)"

text \<open>
  The body of the extraction loop of \<^verbatim>\<open>main\<close> for one emitted line \<^verbatim>\<open>line8\<close> (lines 570 to
  578): decode, expand tabs, append as a logical line.
\<close>

definition process_line :: "libc \<Rightarrow> ui \<Rightarrow> string \<Rightarrow> ui" where
  "process_line L u line8 =
    (let follow = is_following u;
         w = utf8_to_wcs_lossy (lc_mbrtowc L) line8;
         wt = expand_tabs_wcs (lc_wcwidth L) w TABSTOP
     in add_logical_line_w (lc_wcwidth L) (lc_iswpunct L) wt follow u)"

text \<open>\<^verbatim>\<open>local_echo_line(src)\<close>: the line \<^verbatim>\<open>"> "\<close> followed by \<open>src\<close> is appended and rendered.\<close>

definition local_echo_line :: "libc \<Rightarrow> wstring \<Rightarrow> ui \<Rightarrow> ui" where
  "local_echo_line L src u =
    (let follow = is_following u;
         echo = [62, WSPACE] @ wcstr src
     in render_out (add_logical_line_w (lc_wcwidth L) (lc_iswpunct L) echo follow u))"

section \<open>The recent-text window\<close>

definition RECENT_SIZE :: nat where "RECENT_SIZE = 8192"  \<comment> \<open>\<^verbatim>\<open>char recent[8192]\<close>\<close>

text \<open>
  Lines 594 to 602 of \<^verbatim>\<open>main\<close>. The window is \<^verbatim>\<open>recent[0..rlen)\<close>. The terminating NUL is
  stored at \<^verbatim>\<open>recent[rlen]\<close>, behind the window, or, when the window is full, at
  \<^verbatim>\<open>recent[sizeof(recent)-1]\<close>, over its last byte. The text the matchers see is the C
  string \<^term>\<open>cstr\<close> of the window.
\<close>

definition recent_update :: "string \<Rightarrow> string \<Rightarrow> string" where
  "recent_update recent out =
    (let m = length out;
         chunk = (if m > RECENT_SIZE then RECENT_SIZE else m);
         rlen = length recent;
         recent1 =
           (if rlen + chunk > RECENT_SIZE then
              (let sh = (rlen + chunk) - RECENT_SIZE;
                   sh = (if sh > rlen then rlen else sh)
               in drop sh recent)
            else recent);
         recent2 = recent1 @ drop (m - chunk) out
     in if length recent2 < RECENT_SIZE then recent2
        else recent2[RECENT_SIZE - 1 := NUL])"

section \<open>The session loop\<close>

text \<open>
  The options set by the command line (globals of \<^verbatim>\<open>bpq.c\<close>, constant during the loop).
\<close>

record config =
  opt_cr_only :: bool
  opt_upper :: bool
  opt_auto_help :: bool
  opt_local_echo :: bool
  opt_pass_ctrl_z :: bool
  opt_ctrlz_append_cr :: bool
  unlock_delay_ms :: int
  unlock_quiet_ms :: int

text \<open>The defaults: \<^verbatim>\<open>unlock_delay_ms=1200, unlock_quiet_ms=300\<close>, echo, auto-help and pass-through on.\<close>

definition config_default :: config where
  "config_default =
    \<lparr>opt_cr_only = False, opt_upper = False, opt_auto_help = True, opt_local_echo = True,
     opt_pass_ctrl_z = True, opt_ctrlz_append_cr = False,
     unlock_delay_ms = 1200, unlock_quiet_ms = 300\<rparr>"

text \<open>
  The local variables of \<^verbatim>\<open>main\<close> that live across iterations, the accumulator, the
  display globals, and \<open>s_tx\<close>, the bytes written to the socket so far. The flags
  \<^verbatim>\<open>input_locked\<close>, \<^verbatim>\<open>login_done_flag\<close> and \<^verbatim>\<open>auto_help_sent\<close> only hold 0 or 1.
\<close>

record session =
  s_tp :: telnet_parser_t
  s_rx_acc :: string
  s_recent :: string
  s_last_rx :: timespec
  s_alp :: autologin_prompt_t
  s_alb :: autologin_blind_t
  input_locked :: bool
  login_done_flag :: bool
  t_login_done :: timespec
  auto_help_sent :: bool
  s_ibuf :: wstring
  s_ui :: ui
  s_tx :: string

text \<open>
  What one iteration of the loop gets from outside: a pending resize with the new size;
  a failing \<^verbatim>\<open>select\<close>; the socket (nothing to read, a \<^verbatim>\<open>read\<close> of \<open>n\<close> bytes where the
  empty string is \<open>n = 0\<close>, or a failing \<^verbatim>\<open>read\<close>); the readings of the five
  \<^verbatim>\<open>clock_gettime\<close> calls (lines 439, 591, 606, 609 and 619); the key returned by
  \<^verbatim>\<open>get_wch\<close>, if any; and the screen size found after a resume from suspension.
\<close>

datatype rx_event = Rx_None | Rx_Read string | Rx_Err

record event =
  ev_resize :: "(int \<times> int) option"
  ev_select_err :: bool
  ev_rx :: rx_event
  ev_t_blind :: timespec
  ev_t_rx :: timespec
  ev_t_login :: timespec
  ev_t_quiet :: timespec
  ev_t_delay :: timespec
  ev_key :: "nat option"
  ev_resume_size :: "int \<times> int"

datatype exit_status = EXIT_SUCCESS | EXIT_FAILURE

text \<open>The test of line 608 on the C string \<^verbatim>\<open>recent\<close>.\<close>

definition prompt_like :: "string \<Rightarrow> bool" where
  "prompt_like recent \<longleftrightarrow>
     strstr recent ''} '' \<noteq> None \<or> strstr recent ''> '' \<noteq> None \<or> strstr recent ''# '' \<noteq> None
     \<or> strstr recent '': '' \<noteq> None \<or> istrstr recent ''connected to bbs'' \<noteq> None"

text \<open>
  Lines 542 to 613 of \<^verbatim>\<open>main\<close>: the work on \<open>n > 0\<close> bytes read from the socket. The
  block guarded by \<^verbatim>\<open>if (m)\<close> runs when the normalized output is not empty.
\<close>

definition rx_branch :: "libc \<Rightarrow> config \<Rightarrow> event \<Rightarrow> string \<Rightarrow> session \<Rightarrow> session" where
  "rx_branch L cfg ev inp s =
    (case rx_read (s_tp s) (s_rx_acc s) inp of
       (tp', replies, out, ls, rx_acc') \<Rightarrow>
         (let s1 = s\<lparr>s_tp := tp', s_tx := s_tx s @ replies\<rparr> in
          if out = [] then s1
          else
            (let u = foldl (process_line L) (s_ui s1) ls;
                 last_rx = ev_t_rx ev;
                 recent = recent_update (s_recent s1) out;
                 tried = al_enabled (s_alp s1) \<and> al_state (s_alp s1) < 2;
                 (alp, tx) =
                   (if tried then autologin_try_prompt (opt_cr_only cfg) (s_alp s1) (cstr recent) (s_tx s1)
                    else (s_alp s1, s_tx s1));
                 finished = tried \<and> al_state alp = 2;
                 locked =
                   (if input_locked s1 \<and> prompt_like (cstr recent)
                       \<and> since_ms last_rx (ev_t_quiet ev) \<ge> unlock_quiet_ms cfg
                    then False else input_locked s1)
             in s1\<lparr>s_rx_acc := rx_acc', s_ui := render_out u, s_last_rx := last_rx,
                    s_recent := recent, s_alp := alp, s_tx := tx,
                    login_done_flag := (if finished then True else login_done_flag s1),
                    t_login_done := (if finished then ev_t_login ev else t_login_done s1),
                    input_locked := locked\<rparr>)))"

text \<open>Lines 618 to 622: the unlock after the login delay.\<close>

definition delay_unlock :: "config \<Rightarrow> event \<Rightarrow> session \<Rightarrow> session" where
  "delay_unlock cfg ev s =
    (if input_locked s \<and> (login_done_flag s \<or> ab_stage (s_alb s) = 2) then
       (let t0 = (if login_done_flag s then t_login_done s else ab_t_pass (s_alb s)) in
        if since_ms t0 (ev_t_delay ev) \<ge> unlock_delay_ms cfg then s\<lparr>input_locked := False\<rparr> else s)
     else s)"

text \<open>Lines 625 to 628: the automatic \<^verbatim>\<open>"?"\<close>, once, when the input is not locked.\<close>

definition auto_help :: "config \<Rightarrow> session \<Rightarrow> session" where
  "auto_help cfg s =
    (if \<not> input_locked s \<and> \<not> auto_help_sent s \<and> opt_auto_help cfg then
       s\<lparr>s_tx := send_line_utf8_telnet_safe (opt_cr_only cfg) ''?'' (s_tx s), auto_help_sent := True\<rparr>
     else s)"

text \<open>
  The key codes of \<^verbatim>\<open><ncurses.h>\<close> that the keyboard dispatch compares \<^verbatim>\<open>wch\<close> with
  (octal 0410 + 10, 0627, 0523, 0522, 0406, 0550, 0403, 0402, 0407, 0512).
\<close>

definition KEY_F10 :: nat where "KEY_F10 = 274"
definition KEY_SUSPEND :: nat where "KEY_SUSPEND = 407"
definition KEY_PPAGE :: nat where "KEY_PPAGE = 339"
definition KEY_NPAGE :: nat where "KEY_NPAGE = 338"
definition KEY_HOME :: nat where "KEY_HOME = 262"
definition KEY_END :: nat where "KEY_END = 360"
definition KEY_UP :: nat where "KEY_UP = 259"
definition KEY_DOWN :: nat where "KEY_DOWN = 258"
definition KEY_BACKSPACE :: nat where "KEY_BACKSPACE = 263"
definition KEY_DC :: nat where "KEY_DC = 330"

definition IBUF_SIZE :: nat where "IBUF_SIZE = 4096"  \<comment> \<open>\<^verbatim>\<open>wchar_t ibuf[4096]\<close>\<close>

text \<open>
  The encoding loop of the submit branch (lines 691 to 697): \<^verbatim>\<open>wcrtomb\<close> per character, a
  question mark for a character that cannot be encoded, and an end of the loop when the
  bytes do not fit the \<open>left\<close> bytes of the buffer.
\<close>

fun encode_loop :: "(wchar_t \<Rightarrow> string option) \<Rightarrow> nat \<Rightarrow> wstring \<Rightarrow> string" where
  "encode_loop wcrtomb left [] = []"
| "encode_loop wcrtomb left (wc # rest) =
    (let buf = (case wcrtomb wc of None \<Rightarrow> ''?'' | Some b \<Rightarrow> b);
         r = length buf
     in if r > left then [] else buf @ encode_loop wcrtomb (left - r) rest)"

text \<open>
  The submit branch (lines 671 to 705): nothing is sent while the input is locked; the
  input buffer is cleared in both cases.
\<close>

definition submit_line :: "libc \<Rightarrow> config \<Rightarrow> session \<Rightarrow> session" where
  "submit_line L cfg s =
    (let s1 =
       (if \<not> input_locked s then
          (let src = (if opt_upper cfg then wcstr (map (lc_towupper L) (wcstr (s_ibuf s)))
                      else wcstr (s_ibuf s));
               u = (if opt_local_echo cfg then local_echo_line L src (s_ui s) else s_ui s);
               out8 = encode_loop (lc_wcrtomb L) (4 * length src + 1) src;
               tx = send_eol (opt_cr_only cfg) (write_telnet_safe (cstr out8) (s_tx s))
           in s\<lparr>s_ui := u, s_tx := tx\<rparr>)
        else s)
     in s1\<lparr>s_ibuf := []\<rparr>)"

text \<open>The Ctrl-Z branch (lines 637 to 662).\<close>

definition ctrl_z :: "libc \<Rightarrow> config \<Rightarrow> event \<Rightarrow> session \<Rightarrow> session" where
  "ctrl_z L cfg ev s =
    (if opt_pass_ctrl_z cfg then
       (let u = (if opt_local_echo cfg then local_echo_line L [94, 90] (s_ui s) else s_ui s);
            tx = write_telnet_safe [CHR 0x1A] (s_tx s);
            tx = (if opt_ctrlz_append_cr cfg then send_eol (opt_cr_only cfg) tx else tx)
        in s\<lparr>s_ui := u, s_tx := tx\<rparr>)
     else
       (case ev_resume_size ev of
          (r, c) \<Rightarrow> s\<lparr>s_ui := resize (lc_wcwidth L) (lc_iswpunct L) r c (s_ui s)\<rparr>))"

text \<open>
  The keyboard dispatch (lines 633 to 716) on the value \<open>wch\<close> returned by \<^verbatim>\<open>get_wch\<close>;
  \<^verbatim>\<open>die_cleanup(NULL)\<close> ends the program with success.
\<close>

definition keyboard :: "libc \<Rightarrow> config \<Rightarrow> event \<Rightarrow> nat \<Rightarrow> session \<Rightarrow> exit_status + session" where
  "keyboard L cfg ev wch s =
    (if wch = KEY_F10 \<or> wch = 3 then Inl EXIT_SUCCESS
     else if wch = 26 \<or> wch = KEY_SUSPEND then Inr (ctrl_z L cfg ev s)
     else if wch = KEY_PPAGE then Inr (s\<lparr>s_ui := key_ppage (s_ui s)\<rparr>)
     else if wch = KEY_NPAGE then Inr (s\<lparr>s_ui := key_npage (s_ui s)\<rparr>)
     else if wch = KEY_HOME then Inr (s\<lparr>s_ui := key_home (s_ui s)\<rparr>)
     else if wch = KEY_END then Inr (s\<lparr>s_ui := key_end (s_ui s)\<rparr>)
     else if wch = KEY_UP then Inr (s\<lparr>s_ui := key_up (s_ui s)\<rparr>)
     else if wch = KEY_DOWN then Inr (s\<lparr>s_ui := key_down (s_ui s)\<rparr>)
     else if wch = 10 \<or> wch = 13 then Inr (submit_line L cfg s)
     else if wch = KEY_BACKSPACE \<or> wch = 127 \<or> wch = 8 then Inr (s\<lparr>s_ibuf := butlast (s_ibuf s)\<rparr>)
     else if wch = KEY_DC then Inr (s\<lparr>s_ibuf := butlast (s_ibuf s)\<rparr>)
     else if lc_iswprint L wch then
       Inr (if length (s_ibuf s) < IBUF_SIZE - 1 then s\<lparr>s_ibuf := s_ibuf s @ [wch]\<rparr> else s)
     else Inr s)"

text \<open>
  One iteration of the \<^verbatim>\<open>for(;;)\<close> loop of \<^verbatim>\<open>main\<close> (lines 518 to 717): resize, \<^verbatim>\<open>select\<close>,
  blind autologin, socket, delayed unlock, automatic help, keyboard. An exit of the
  program is the left summand.
\<close>

definition main_iter :: "libc \<Rightarrow> config \<Rightarrow> session \<Rightarrow> event \<Rightarrow> exit_status + session" where
  "main_iter L cfg s ev =
    (let s1 = (case ev_resize ev of
                 None \<Rightarrow> s
               | Some (r, c) \<Rightarrow> s\<lparr>s_ui := resize (lc_wcwidth L) (lc_iswpunct L) r c (s_ui s)\<rparr>)
     in if ev_select_err ev then Inl EXIT_FAILURE
        else
          (case blind_step (opt_cr_only cfg) (s_alb s1) (ev_t_blind ev) of
             (alb, sent) \<Rightarrow>
               (let s2 = s1\<lparr>s_alb := alb, s_tx := s_tx s1 @ sent\<rparr> in
                case (case ev_rx ev of
                        Rx_None \<Rightarrow> Inr s2
                      | Rx_Err \<Rightarrow> Inl EXIT_FAILURE
                      | Rx_Read inp \<Rightarrow>
                          if inp = [] then Inl EXIT_SUCCESS else Inr (rx_branch L cfg ev inp s2)) of
                  Inl e \<Rightarrow> Inl e
                | Inr s3 \<Rightarrow>
                    (let s4 = auto_help cfg (delay_unlock cfg ev s3) in
                     case ev_key ev of
                       None \<Rightarrow> Inr s4
                     | Some wch \<Rightarrow> keyboard L cfg ev wch s4))))"

text \<open>The loop over the iterations, as long as the program does not exit.\<close>

fun main_loop :: "libc \<Rightarrow> config \<Rightarrow> session \<Rightarrow> event list \<Rightarrow> exit_status + session" where
  "main_loop L cfg s [] = Inr s"
| "main_loop L cfg s (ev # evs) =
    (case main_iter L cfg s ev of
       Inl e \<Rightarrow> Inl e
     | Inr s' \<Rightarrow> main_loop L cfg s' evs)"

text \<open>
  The state before the first iteration (lines 496 to 516): \<open>t_rx\<close> and \<open>t0\<close> are the clock
  readings of lines 506 and 510, \<open>r\<close> and \<open>c\<close> the screen size.
\<close>

definition session_init ::
  "autologin_prompt_t \<Rightarrow> autologin_blind_t \<Rightarrow> int \<Rightarrow> int \<Rightarrow> timespec \<Rightarrow> timespec \<Rightarrow> session"
where
  "session_init alp alb r c t_rx t0 =
    \<lparr>s_tp = tp0, s_rx_acc = [], s_recent = [], s_last_rx = t_rx,
     s_alp = alp, s_alb = blind_init alb t0,
     input_locked = (al_enabled alp \<or> ab_enabled alb),
     login_done_flag = False, t_login_done = \<lparr>tv_sec = 0, tv_nsec = 0\<rparr>,
     auto_help_sent = False, s_ibuf = [], s_ui = render_out (ui_init r c), s_tx = []\<rparr>"

text \<open>An iteration in which nothing arrives and no key is pressed, at one clock reading.\<close>

definition idle_at :: "timespec \<Rightarrow> event" where
  "idle_at t =
    \<lparr>ev_resize = None, ev_select_err = False, ev_rx = Rx_None,
     ev_t_blind = t, ev_t_rx = t, ev_t_login = t, ev_t_quiet = t, ev_t_delay = t,
     ev_key = None, ev_resume_size = (24, 80)\<rparr>"

text \<open>An iteration in which \<open>inp\<close> is read from the socket, at one clock reading.\<close>

definition read_at :: "timespec \<Rightarrow> string \<Rightarrow> event" where
  "read_at t inp = (idle_at t)\<lparr>ev_rx := Rx_Read inp\<rparr>"

section \<open>Example sessions\<close>

text \<open>
  Prompt autologin with the user \<^verbatim>\<open>N0CALL\<close>, as after \<^verbatim>\<open>-u N0CALL -p SECRET\<close>; the blind
  strategy off; a session without autologin; a blind record as after \<^verbatim>\<open>-u U -p P\<close>.
\<close>

definition alp_ex :: autologin_prompt_t where
  "alp_ex = \<lparr>al_enabled = True, al_state = 0, al_user = ''N0CALL'', al_pass = ''SECRET''\<rparr>"

definition alp_off :: autologin_prompt_t where
  "alp_off = \<lparr>al_enabled = False, al_state = 0, al_user = [], al_pass = []\<rparr>"

definition alb_off :: autologin_blind_t where
  "alb_off =
    \<lparr>ab_enabled = False, ab_stage = 0, ab_t0 = at_ms 0, ab_t_pass = at_ms 0,
     ab_du_ms = 0, ab_dp_ms = 0, ab_user = ''N0CALL'', ab_pass = ''SECRET''\<rparr>"

definition blind_ex :: autologin_blind_t where
  "blind_ex =
    \<lparr>ab_enabled = True, ab_stage = 0, ab_t0 = at_ms 0, ab_t_pass = at_ms 0,
     ab_du_ms = 0, ab_dp_ms = 0, ab_user = ''U'', ab_pass = ''P''\<rparr>"

definition session_ex :: session where
  "session_ex = session_init alp_ex alb_off 24 80 (at_ms 0) (at_ms 0)"

definition session_off :: session where
  "session_off = session_init alp_off alb_off 24 80 (at_ms 0) (at_ms 0)"

text \<open>
  A marker occurs in a text, letter case apart: some substring of the text equals the
  marker after \<^const>\<open>tolower\<close>.
\<close>

definition ci_occurs :: "string \<Rightarrow> string \<Rightarrow> bool" where
  "ci_occurs marker hay \<longleftrightarrow>
     (\<exists>pre m post. hay = pre @ m @ post \<and> map tolower m = map tolower marker)"

section \<open>Properties of the Telnet filter\<close>

lemma telnet_byte_shift:
  assumes "length out < outcap"
  shows "telnet_byte outcap (tp, out, tx) ch =
    (case telnet_byte outcap (tp, [], []) ch of (tp', d, r) \<Rightarrow> (tp', out @ d, tx @ r))"
  using assms by (simp add: telnet_byte_def put_def telnet_send3_def)

lemma telnet_byte_out_length:
  "telnet_byte outcap (tp, out, tx) ch = (tp', out', tx') \<Longrightarrow> length out' \<le> Suc (length out)"
  by (auto simp: telnet_byte_def put_def split: if_splits)

lemma telnet_loop_shift:
  "length out + length xs \<le> outcap \<Longrightarrow>
   telnet_loop outcap (tp, out, tx) xs =
    (case telnet_loop outcap (tp, [], []) xs of (tp', d, r) \<Rightarrow> (tp', out @ d, tx @ r))"
proof (induction xs arbitrary: tp out tx)
  case Nil
  then show ?case by simp
next
  case (Cons ch xs)
  obtain tp1 d1 r1 where step: "telnet_byte outcap (tp, [], []) ch = (tp1, d1, r1)"
    by (cases "telnet_byte outcap (tp, [], []) ch") auto
  from Cons.prems have room: "length out < outcap" by simp
  have d1: "length d1 \<le> 1"
    using telnet_byte_out_length [OF step] by simp
  have full: "telnet_byte outcap (tp, out, tx) ch = (tp1, out @ d1, tx @ r1)"
    using telnet_byte_shift [OF room, of tp tx ch] step by simp
  have a: "length (out @ d1) + length xs \<le> outcap"
    using Cons.prems d1 by simp
  have b: "length d1 + length xs \<le> outcap"
    using Cons.prems d1 by simp
  show ?case
    using Cons.IH [OF a, of tp1 "tx @ r1"] Cons.IH [OF b, of tp1 r1] step full
    by (simp split: prod.splits)
qed

lemma telnet_loop_append:
  "telnet_loop outcap acc (xs @ ys) = telnet_loop outcap (telnet_loop outcap acc xs) ys"
  by (induction xs arbitrary: acc) simp_all

lemma telnet_loop_out_length:
  "telnet_loop outcap (tp, out, tx) xs = (tp', out', tx') \<Longrightarrow> length out' \<le> length out + length xs"
proof (induction xs arbitrary: tp out tx)
  case Nil
  then show ?case by simp
next
  case (Cons ch xs)
  obtain tp1 o1 t1 where step: "telnet_byte outcap (tp, out, tx) ch = (tp1, o1, t1)"
    by (cases "telnet_byte outcap (tp, out, tx) ch") auto
  with Cons.prems have "telnet_loop outcap (tp1, o1, t1) xs = (tp', out', tx')" by simp
  from Cons.IH [OF this] telnet_byte_out_length [OF step] show ?case by simp
qed

text \<open>The parser state and the replies do not depend on the output buffer or its capacity.\<close>

lemma telnet_byte_ctl:
  "(case telnet_byte outcap (tp, out, tx) ch of (a, _, c) \<Rightarrow> (a, c)) =
   (case telnet_byte outcap' (tp, [], []) ch of (a, _, c) \<Rightarrow> (a, tx @ c))"
  by (simp add: telnet_byte_def telnet_send3_def)

lemma telnet_loop_ctl:
  "(case telnet_loop outcap (tp, out, tx) xs of (a, _, c) \<Rightarrow> (a, c)) =
   (case telnet_loop outcap' (tp, [], []) xs of (a, _, c) \<Rightarrow> (a, tx @ c))"
proof (induction xs arbitrary: tp out tx outcap outcap')
  case Nil
  then show ?case by simp
next
  case (Cons ch xs)
  obtain tp1 o1 t1 where s1: "telnet_byte outcap (tp, out, tx) ch = (tp1, o1, t1)"
    by (cases "telnet_byte outcap (tp, out, tx) ch") auto
  obtain tp2 o2 t2 where s2: "telnet_byte outcap' (tp, [], []) ch = (tp2, o2, t2)"
    by (cases "telnet_byte outcap' (tp, [], []) ch") auto
  from telnet_byte_ctl [of outcap tp out tx ch outcap'] s1 s2
  have eq: "tp1 = tp2" "t1 = tx @ t2" by simp_all
  show ?case
    using Cons.IH [of outcap tp2 o1 "tx @ t2" outcap'] Cons.IH [of outcap' tp2 o2 t2 outcap'] s1 s2 eq
    by (simp split: prod.splits)
qed

text \<open>
  Claim C1. Let a byte stream be cut into two consecutive chunks \<open>xs\<close> and \<open>ys\<close>, and let
  the filter run on \<open>xs\<close> and then, from the parser it left, on \<open>ys\<close>. One call on the
  whole stream \<open>xs @ ys\<close> leaves the same parser and sends the same refusal replies, and
  it stores the same data bytes whenever the output buffer has room for the stream
  (\<open>length (xs @ ys) \<le> outcap\<close>; in \<^verbatim>\<open>main\<close> the input buffer holds 4096 bytes and the
  output buffer 65536, and the filter never stores more bytes than it reads).
\<close>

theorem telnet_filter_chunk_invariance:
  assumes first: "telnet_filter_and_reply tp xs outcap = (tp1, out1, tx1)"
    and second: "telnet_filter_and_reply tp1 ys outcap = (tp2, out2, tx2)"
  shows "(case telnet_filter_and_reply tp (xs @ ys) outcap of
           (tp', out, tx) \<Rightarrow>
              tp' = tp2 \<and> tx = tx1 @ tx2 \<and> (length (xs @ ys) \<le> outcap \<longrightarrow> out = out1 @ out2))"
proof -
  have whole: "telnet_filter_and_reply tp (xs @ ys) outcap = telnet_loop outcap (tp1, out1, tx1) ys"
    using first by (simp add: telnet_filter_and_reply_def telnet_loop_append)
  obtain tp' out tx where res: "telnet_loop outcap (tp1, out1, tx1) ys = (tp', out, tx)"
    by (cases "telnet_loop outcap (tp1, out1, tx1) ys") auto
  have ctl: "tp' = tp2 \<and> tx = tx1 @ tx2"
    using telnet_loop_ctl [of outcap tp1 out1 tx1 ys outcap] res second
    by (simp add: telnet_filter_and_reply_def)
  have data: "out = out1 @ out2" if cap: "length (xs @ ys) \<le> outcap"
  proof -
    have "length out1 \<le> length xs"
      using telnet_loop_out_length [of outcap tp "[]" "[]" xs tp1 out1 tx1] first
      by (simp add: telnet_filter_and_reply_def)
    with cap have room: "length out1 + length ys \<le> outcap" by simp
    show ?thesis
      using telnet_loop_shift [OF room, of tp1 tx1] second res
      by (simp add: telnet_filter_and_reply_def)
  qed
  from whole res ctl data show ?thesis by simp
qed

theorem telnet_filter_chunk_invariance_witness:
  "(case telnet_filter_and_reply \<lparr>tp_state = 0, tp_cmd = NUL\<rparr> ([CHR ''a'', IAC, DO] @ [CHR 42, IAC, IAC, CHR ''b'']) 65536 of
     (tp', out, tx) \<Rightarrow>
        tp' = \<lparr>tp_state = 0, tp_cmd = IAC\<rparr> \<and> tx = [] @ [IAC, WONT, CHR 42]
        \<and> out = [CHR ''a''] @ [IAC, CHR ''b''])"
proof -
  have first: "telnet_filter_and_reply \<lparr>tp_state = 0, tp_cmd = NUL\<rparr> [CHR ''a'', IAC, DO] 65536
      = (\<lparr>tp_state = 2, tp_cmd = DO\<rparr>, [CHR ''a''], [])"
    by (simp add: telnet_filter_and_reply_def telnet_byte_def put_def telnet_send3_def telnet_consts)
  have second: "telnet_filter_and_reply \<lparr>tp_state = 2, tp_cmd = DO\<rparr> [CHR 42, IAC, IAC, CHR ''b''] 65536
      = (\<lparr>tp_state = 0, tp_cmd = IAC\<rparr>, [IAC, CHR ''b''], [IAC, WONT, CHR 42])"
    by (simp add: telnet_filter_and_reply_def telnet_byte_def put_def telnet_send3_def telnet_consts)
  show ?thesis
    using telnet_filter_chunk_invariance [OF first second] by (simp split: prod.splits)
qed

text \<open>
  Claim C5. From the data state: \<^verbatim>\<open>IAC IAC\<close> stores the one data byte 0xFF (the output
  buffer having room for a byte) and sends nothing; \<^verbatim>\<open>IAC DO opt\<close> sends exactly
  \<^verbatim>\<open>IAC WONT opt\<close>; \<^verbatim>\<open>IAC WILL opt\<close> sends exactly \<^verbatim>\<open>IAC DONT opt\<close>; \<^verbatim>\<open>IAC DONT opt\<close> and
  \<^verbatim>\<open>IAC WONT opt\<close> send nothing; the four negotiations store no data byte, and the parser
  is back in the data state each time. On a fresh parser, \<^verbatim>\<open>IAC DO 42\<close> gives the reply
  \<^verbatim>\<open>IAC WONT 42\<close>, no data byte, and the data state.
\<close>

theorem telnet_command_semantics:
  assumes data: "tp_state tp = 0"
  shows "(0 < outcap \<longrightarrow>
            telnet_filter_and_reply tp [IAC, IAC] outcap = (tp\<lparr>tp_cmd := IAC\<rparr>, [IAC], []))
       \<and> telnet_filter_and_reply tp [IAC, DO, opt] outcap = (tp\<lparr>tp_cmd := DO\<rparr>, [], [IAC, WONT, opt])
       \<and> telnet_filter_and_reply tp [IAC, WILL, opt] outcap = (tp\<lparr>tp_cmd := WILL\<rparr>, [], [IAC, DONT, opt])
       \<and> telnet_filter_and_reply tp [IAC, DONT, opt] outcap = (tp\<lparr>tp_cmd := DONT\<rparr>, [], [])
       \<and> telnet_filter_and_reply tp [IAC, WONT, opt] outcap = (tp\<lparr>tp_cmd := WONT\<rparr>, [], [])
       \<and> telnet_filter_and_reply \<lparr>tp_state = 0, tp_cmd = NUL\<rparr> [IAC, DO, CHR 42] 65536
            = (\<lparr>tp_state = 0, tp_cmd = DO\<rparr>, [], [IAC, WONT, CHR 42])"
  using data
  by (simp add: telnet_filter_and_reply_def telnet_byte_def put_def telnet_send3_def telnet_consts)

theorem telnet_command_semantics_witness:
  "telnet_filter_and_reply \<lparr>tp_state = 0, tp_cmd = NUL\<rparr> [IAC, IAC] 65536
      = (\<lparr>tp_state = 0, tp_cmd = IAC\<rparr>, [IAC], [])
   \<and> telnet_filter_and_reply \<lparr>tp_state = 0, tp_cmd = NUL\<rparr> [IAC, DO, CHR 42] 65536
      = (\<lparr>tp_state = 0, tp_cmd = DO\<rparr>, [], [IAC, WONT, CHR 42])
   \<and> telnet_filter_and_reply \<lparr>tp_state = 0, tp_cmd = NUL\<rparr> [IAC, WILL, CHR 0x01] 65536
      = (\<lparr>tp_state = 0, tp_cmd = WILL\<rparr>, [], [IAC, DONT, CHR 0x01])"
  using telnet_command_semantics [of "\<lparr>tp_state = 0, tp_cmd = NUL\<rparr>" 65536 "CHR 42"]
    telnet_command_semantics [of "\<lparr>tp_state = 0, tp_cmd = NUL\<rparr>" 65536 "CHR 0x01"]
  by simp


section \<open>Properties of the normalizer and the accumulator\<close>

text \<open>
  A reference function for the proofs: the lines of a byte string, split at line feeds,
  and the unterminated rest; \<open>cur\<close> is the line being collected.
\<close>

fun split_lf :: "string \<Rightarrow> string \<Rightarrow> string list \<times> string" where
  "split_lf cur [] = ([], cur)"
| "split_lf cur (b # bs) =
    (if b = LF then (case split_lf [] bs of (ls, r) \<Rightarrow> (cur # ls, r)) else split_lf (cur @ [b]) bs)"

lemma memchr_None: "memchr s c = None \<longleftrightarrow> c \<notin> set s"
  by (induction s) auto

lemma memchr_Some: "memchr s c = Some k \<Longrightarrow> s = take k s @ c # drop (Suc k) s \<and> c \<notin> set (take k s)"
proof (induction s arbitrary: k)
  case Nil
  then show ?case by simp
next
  case (Cons b bs)
  then show ?case by (cases "b = c") auto
qed

lemma split_lf_no_lf: "LF \<notin> set s \<Longrightarrow> split_lf cur s = ([], cur @ s)"
  by (induction s arbitrary: cur) auto

lemma split_lf_line: "LF \<notin> set l \<Longrightarrow> split_lf cur (l @ LF # s) = (case split_lf [] s of (ls, r) \<Rightarrow> ((cur @ l) # ls, r))"
  by (induction l arbitrary: cur) auto

lemma extract_lines_split_lf:
  "consumed \<le> length buf \<Longrightarrow>
   extract_lines buf consumed =
     (case split_lf [] (drop consumed buf) of (ls, r) \<Rightarrow> (ls, length buf - length r))"
proof (induction buf consumed rule: extract_lines.induct)
  case (1 buf consumed)
  show ?case
  proof (cases "memchr (drop consumed buf) LF")
    case None
    then have "LF \<notin> set (drop consumed buf)" by (simp add: memchr_None)
    from split_lf_no_lf [OF this, of "[]"] None "1.prems" show ?thesis
      by (simp add: extract_lines.simps [of buf consumed])
  next
    case (Some k)
    let ?d = "drop consumed buf"
    from memchr_Some [OF Some] have d: "?d = take k ?d @ LF # drop (Suc k) ?d" and nolf: "LF \<notin> set (take k ?d)"
      by simp_all
    from memchr_Some_less [OF Some] have k: "consumed + k + 1 \<le> length buf" by simp
    have dd: "drop (Suc k) ?d = drop (consumed + k + 1) buf" by (simp add: add.commute)
    have "split_lf [] ?d = split_lf [] (take k ?d @ LF # drop (Suc k) ?d)" using d by simp
    also have "\<dots> = (case split_lf [] (drop (consumed + k + 1) buf) of (ls, r) \<Rightarrow> (take k ?d # ls, r))"
      using split_lf_line [OF nolf, of "[]"] dd by simp
    finally have sp: "split_lf [] ?d = (case split_lf [] (drop (consumed + k + 1) buf) of (ls, r) \<Rightarrow> (take k ?d # ls, r))" .
    show ?thesis
      using "1.IH" [OF Some k] Some sp
      by (simp add: extract_lines.simps [of buf consumed] split: prod.splits)
  qed
qed

lemma split_lf_spec:
  "split_lf cur s = (ls, r) \<Longrightarrow>
     LF \<notin> set cur \<Longrightarrow>
     concat (map (\<lambda>l. l @ [LF]) ls) @ r = cur @ s \<and> LF \<notin> set r \<and> LF \<notin> set (concat ls)"
proof (induction s arbitrary: cur ls r)
  case Nil
  then show ?case by simp
next
  case (Cons b bs)
  show ?case
  proof (cases "b = LF")
    case True
    obtain ls' r' where rec: "split_lf [] bs = (ls', r')" by (cases "split_lf [] bs") auto
    from Cons.IH [OF rec] Cons.prems True rec show ?thesis by auto
  next
    case False
    with Cons.prems have "split_lf (cur @ [b]) bs = (ls, r)" "LF \<notin> set (cur @ [b])" by auto
    from Cons.IH [OF this] show ?thesis by simp
  qed
qed

lemma CR_neq_LF [simp]: "CR \<noteq> LF" "LF \<noteq> CR"
  by (simp_all add: CR_def LF_def)

lemma normalize_loop_resume:
  "ys = [] \<or> hd ys \<noteq> LF \<Longrightarrow>
   normalize_loop outcap out (xs @ ys) = normalize_loop outcap (normalize_loop outcap out xs) ys"
proof (induction outcap out xs rule: normalize_loop.induct)
  case (1 outcap out)
  then show ?case by simp
next
  case (2 outcap out ch rest)
  show ?case
  proof (cases rest)
    case Nil
    with 2 show ?thesis by (cases ys) (auto split: list.splits)
  next
    case (Cons nx rest')
    with 2 show ?thesis by auto
  qed
qed

lemma normalize_loop_shift:
  "length out + length xs \<le> outcap \<Longrightarrow>
   normalize_loop outcap out xs = out @ normalize_loop outcap [] xs"
proof (induction xs arbitrary: out rule: length_induct)
  case (1 xs)
  have IH: "normalize_loop outcap o' zs = o' @ normalize_loop outcap [] zs"
    if "length zs < length xs" "length o' + length zs \<le> outcap" for o' zs
    using 1(1) that by blast
  show ?case
  proof (cases xs)
    case Nil
    then show ?thesis by simp
  next
    case (Cons ch rest)
    with "1.prems" have room: "length out < outcap" "0 < outcap" by simp_all
    have p: "put outcap out c = out @ [c]" "put outcap [] c = [c]" for c
      using room by (simp_all add: put_def)
    have a: "normalize_loop outcap (out @ [c]) zs = out @ [c] @ normalize_loop outcap [] zs"
      if "length zs \<le> length rest" for c zs
      using IH [of zs "out @ [c]"] IH [of zs "[c]"] that Cons "1.prems" by simp
    have b: "normalize_loop outcap [c] zs = [c] @ normalize_loop outcap [] zs"
      if "length zs \<le> length rest" for c zs
      using IH [of zs "[c]"] that Cons "1.prems" by simp
    have c: "normalize_loop outcap (out @ [c]) zs = out @ normalize_loop outcap [c] zs"
      if "length zs \<le> length rest" for c zs
      using a [OF that, of c] b [OF that, of c] by simp
    show ?thesis
    proof (cases "ch = CR")
      case True
      show ?thesis
      proof (cases rest)
        case Nil
        with True Cons p show ?thesis by simp
      next
        case inner: (Cons nx rest')
        show ?thesis
        proof (cases "nx = LF")
          case lf: True
          from c [of rest' LF] inner have "normalize_loop outcap (out @ [LF]) rest' = out @ normalize_loop outcap [LF] rest'"
            by simp
          with True Cons inner lf p show ?thesis by simp
        next
          case nlf: False
          from c [of rest LF] have "normalize_loop outcap (out @ [LF]) rest = out @ normalize_loop outcap [LF] rest"
            by simp
          with True Cons inner nlf p show ?thesis by simp
        qed
      qed
    next
      case False
      from c [of rest] have "normalize_loop outcap (out @ [k]) rest = out @ normalize_loop outcap [k] rest" for k
        by simp
      with False Cons p show ?thesis by simp
    qed
  qed
qed

lemma normalize_incoming_length: "length (normalize_loop outcap out xs) \<le> length out + length xs"
proof (induction outcap out xs rule: normalize_loop.induct)
  case (1 outcap out)
  then show ?case by simp
next
  case (2 outcap out ch rest)
  have "length (put outcap out c) \<le> Suc (length out)" for c by (simp add: put_def)
  then have q: "length (put outcap out c) + n \<le> Suc (length out + n)" for c n by simp
  show ?case
  proof (cases "ch = CR")
    case True
    show ?thesis
    proof (cases rest)
      case Nil
      with True "2.IH"(1) q [of LF 0] show ?thesis by simp
    next
      case (Cons nx rest')
      show ?thesis
      proof (cases "nx = LF")
        case lf: True
        from "2.IH"(2) [OF True Cons lf] q [of LF "length rest'"] True Cons lf
        show ?thesis by simp
      next
        case nlf: False
        from "2.IH"(3) [OF True Cons nlf] q [of LF "length rest"] True Cons nlf
        show ?thesis by simp
      qed
    qed
  next
    case False
    show ?thesis
    proof (cases "ch = LF")
      case True
      from "2.IH"(4) [OF False True] q [of LF "length rest"] False True show ?thesis by simp
    next
      case nlf: False
      from "2.IH"(5) [OF False nlf] q [of ch "length rest"] False nlf show ?thesis by simp
    qed
  qed
qed

lemma normalize_split:
  assumes cap: "length (xs @ CR # LF # ys) \<le> outcap"
  shows "normalize_incoming (xs @ [CR]) outcap @ normalize_incoming (LF # ys) outcap
           = normalize_incoming xs outcap @ [LF, LF] @ normalize_incoming ys outcap"
    and "normalize_incoming (xs @ CR # LF # ys) outcap
           = normalize_incoming xs outcap @ [LF] @ normalize_incoming ys outcap"
proof -
  let ?N = "\<lambda>zs. normalize_loop outcap [] zs"
  have lenx: "length (?N xs) \<le> length xs"
    using normalize_incoming_length [of outcap "[]" xs] by simp
  with cap have room: "length (?N xs) < outcap" "0 < outcap" by simp_all
  have r1: "?N (xs @ [CR]) = ?N xs @ [LF]"
    using normalize_loop_resume [of "[CR]" outcap "[]" xs] room by (simp add: put_def)
  have r2: "?N (LF # ys) = LF # ?N ys"
    using normalize_loop_shift [of "[LF]" ys outcap] cap room by (simp add: put_def)
  have "?N (xs @ CR # LF # ys) = normalize_loop outcap (?N xs) (CR # LF # ys)"
    using normalize_loop_resume [of "CR # LF # ys" outcap "[]" xs] by simp
  also have "\<dots> = normalize_loop outcap (?N xs @ [LF]) ys"
    using room by (simp add: put_def)
  also have "\<dots> = (?N xs @ [LF]) @ ?N ys"
    using normalize_loop_shift [of "?N xs @ [LF]" ys outcap] lenx cap by simp
  finally have r3: "?N (xs @ CR # LF # ys) = ?N xs @ [LF] @ ?N ys" by simp
  show "normalize_incoming (xs @ [CR]) outcap @ normalize_incoming (LF # ys) outcap
           = normalize_incoming xs outcap @ [LF, LF] @ normalize_incoming ys outcap"
    using r1 r2 by (simp add: normalize_incoming_def)
  show "normalize_incoming (xs @ CR # LF # ys) outcap
           = normalize_incoming xs outcap @ [LF] @ normalize_incoming ys outcap"
    using r3 by (simp add: normalize_incoming_def)
qed


lemma rx_accumulate_split_lf: "rx_accumulate rx_acc out = split_lf [] (rx_acc @ out)"
proof -
  obtain ls r where sp: "split_lf [] (rx_acc @ out) = (ls, r)" by (cases "split_lf [] (rx_acc @ out)") auto
  from split_lf_spec [OF sp] have spec: "concat (map (\<lambda>l. l @ [LF]) ls) @ r = rx_acc @ out"
    by simp
  then have len: "length r \<le> length (rx_acc @ out)"
    by (metis length_append le_add2)
  from spec have dr: "drop (length (rx_acc @ out) - length r) (rx_acc @ out) = r"
    by (metis append_eq_conv_conj diff_add_inverse2 length_append)
  have "length r = length (rx_acc @ out) \<Longrightarrow> rx_acc @ out = r"
    using dr by simp
  with len dr show ?thesis
    using extract_lines_split_lf [of 0 "rx_acc @ out"] sp
    by (auto simp: rx_accumulate_def Let_def)
qed

lemma rx_feed_spec:
  assumes "rx_feed rx_acc out = (ls, r)" and "LF \<notin> set rx_acc"
  shows "concat (map (\<lambda>l. l @ [LF]) ls) @ r = rx_acc @ out \<and> LF \<notin> set r \<and> LF \<notin> set (concat ls)"
proof (cases "out = []")
  case True
  with assms show ?thesis by (simp add: rx_feed_def)
next
  case False
  with assms have "split_lf [] (rx_acc @ out) = (ls, r)"
    by (simp add: rx_feed_def rx_accumulate_split_lf)
  from split_lf_spec [OF this] show ?thesis by simp
qed

lemma rx_feed_all_spec:
  "rx_feed_all rx_acc outs = (ls, r) \<Longrightarrow> LF \<notin> set rx_acc \<Longrightarrow>
   concat (map (\<lambda>l. l @ [LF]) ls) @ r = rx_acc @ concat outs \<and> LF \<notin> set r \<and> LF \<notin> set (concat ls)"
proof (induction outs arbitrary: rx_acc ls r)
  case Nil
  then show ?case by simp
next
  case (Cons out outs)
  obtain l1 a1 where f: "rx_feed rx_acc out = (l1, a1)" by (cases "rx_feed rx_acc out") auto
  obtain l2 a2 where g: "rx_feed_all a1 outs = (l2, a2)" by (cases "rx_feed_all a1 outs") auto
  from rx_feed_spec [OF f Cons.prems(2)]
  have s1: "concat (map (\<lambda>l. l @ [LF]) l1) @ a1 = rx_acc @ out" "LF \<notin> set a1" "LF \<notin> set (concat l1)"
    by simp_all
  from Cons.IH [OF g s1(2)]
  have s2: "concat (map (\<lambda>l. l @ [LF]) l2) @ a2 = a1 @ concat outs" "LF \<notin> set a2" "LF \<notin> set (concat l2)"
    by simp_all
  from Cons.prems(1) f g have eq: "ls = l1 @ l2" "r = a2" by simp_all
  have "concat (map (\<lambda>l. l @ [LF]) (l1 @ l2)) @ a2 = concat (map (\<lambda>l. l @ [LF]) l1) @ (a1 @ concat outs)"
    using s2(1) by simp
  also have "\<dots> = rx_acc @ out @ concat outs"
    using s1(1) by (metis append.assoc)
  finally show ?case using eq s1 s2 by simp
qed

lemma split_lf_ends_LF: "snd (split_lf cur (s @ [LF])) = []"
proof (induction s arbitrary: cur)
  case Nil
  then show ?case by simp
next
  case (Cons b s)
  from Cons [of "[]"] Cons [of "cur @ [b]"] show ?case
    by (cases "split_lf [] (s @ [LF])") auto
qed

lemma split_lf_append_LF:
  "split_lf cur (s @ LF # t) =
    (case split_lf cur (s @ [LF]) of (l1, _) \<Rightarrow> case split_lf [] t of (l2, r) \<Rightarrow> (l1 @ l2, r))"
  by (induction s arbitrary: cur) (auto split: prod.splits)

lemma rx_feed_split_lf: "rx_feed [] out = split_lf [] out"
  by (simp add: rx_feed_def rx_accumulate_split_lf)

lemma normalize_incoming_CR_end:
  assumes "length xs < outcap"
  shows "normalize_incoming (xs @ [CR]) outcap = normalize_incoming xs outcap @ [LF]"
proof -
  have "length (normalize_loop outcap [] xs) \<le> length xs"
    using normalize_incoming_length [of outcap "[]" xs] by simp
  with assms have "length (normalize_loop outcap [] xs) < outcap" by simp
  then show ?thesis
    using normalize_loop_resume [of "[CR]" outcap "[]" xs]
    by (simp add: put_def normalize_incoming_def)
qed

lemma normalize_incoming_LF_start:
  assumes "length ys < outcap"
  shows "normalize_incoming (LF # ys) outcap = LF # normalize_incoming ys outcap"
  using normalize_loop_shift [of "[LF]" ys outcap] assms
  by (simp add: put_def normalize_incoming_def)

lemma normalize_incoming_CRLF:
  assumes cap: "length (xs @ CR # LF # ys) \<le> outcap"
  shows "normalize_incoming (xs @ CR # LF # ys) outcap
           = normalize_incoming xs outcap @ [LF] @ normalize_incoming ys outcap"
  using normalize_split(2) [OF cap] .

text \<open>
  Claim C2. Whatever chunks are fed to the (initially empty) accumulator, no emitted line
  contains a line feed, the unterminated rest contains none either, and the emitted
  lines, each followed by a line feed, followed by the rest, are exactly the chunks put
  end to end. Reading \<^verbatim>\<open>"AB\r\nCD"\<close> and then \<^verbatim>\<open>"EF\n"\<close> emits the line \<^verbatim>\<open>"AB"\<close> in the first
  read and the line \<^verbatim>\<open>"CDEF"\<close> in the second, and nothing else.
\<close>

theorem rx_accumulator_lines:
  "(case rx_feed_all [] outs of
      (ls, r) \<Rightarrow>
        (\<forall>l \<in> set ls. LF \<notin> set l) \<and> LF \<notin> set r
        \<and> concat (map (\<lambda>l. l @ [LF]) ls) @ r = concat outs)
   \<and> rx_read tp0 [] (''AB'' @ [CR, LF] @ ''CD'') = (tp0, [], ''AB'' @ [LF] @ ''CD'', [''AB''], ''CD'')
   \<and> rx_read tp0 ''CD'' (''EF'' @ [LF]) = (tp0, [], ''EF'' @ [LF], [''CDEF''], [])"
proof -
  obtain ls r where run: "rx_feed_all [] outs = (ls, r)"
    by (cases "rx_feed_all [] outs") auto
  from rx_feed_all_spec [OF run] have general:
    "(\<forall>l \<in> set ls. LF \<notin> set l) \<and> LF \<notin> set r \<and> concat (map (\<lambda>l. l @ [LF]) ls) @ r = concat outs"
    by simp
  have first: "rx_read tp0 [] (''AB'' @ [CR, LF] @ ''CD'') = (tp0, [], ''AB'' @ [LF] @ ''CD'', [''AB''], ''CD'')"
    by (simp add: rx_read_def tp0_def telnet_filter_and_reply_def telnet_byte_def put_def
        telnet_consts CR_def LF_def normalize_incoming_def TMP_CAP_def OUT_CAP_def rx_feed_def
        rx_accumulate_def extract_lines.simps)
  have second: "rx_read tp0 ''CD'' (''EF'' @ [LF]) = (tp0, [], ''EF'' @ [LF], [''CDEF''], [])"
    by (simp add: rx_read_def tp0_def telnet_filter_and_reply_def telnet_byte_def put_def
        telnet_consts CR_def LF_def normalize_incoming_def TMP_CAP_def OUT_CAP_def rx_feed_def
        rx_accumulate_def extract_lines.simps)
  from run general first second show ?thesis by simp
qed

theorem rx_accumulator_lines_witness:
  "LF \<notin> set ''AB'' \<and> LF \<notin> set ''CDEF''
   \<and> concat (map (\<lambda>l. l @ [LF]) [''AB'', ''CDEF'']) @ []
       = concat [[CHR ''A'', CHR ''B'', LF, CHR ''C'', CHR ''D''], [CHR ''E'', CHR ''F'', LF]]"
proof -
  have run: "rx_feed_all [] [[CHR ''A'', CHR ''B'', LF, CHR ''C'', CHR ''D''], [CHR ''E'', CHR ''F'', LF]]
      = ([''AB'', ''CDEF''], [])"
    by (simp add: rx_feed_def rx_accumulate_def extract_lines.simps LF_def)
  note inst = rx_accumulator_lines
    [of "[[CHR ''A'', CHR ''B'', LF, CHR ''C'', CHR ''D''], [CHR ''E'', CHR ''F'', LF]]", unfolded run]
  from inst show ?thesis by simp
qed

text \<open>
  Claim C9. The normalizer keeps nothing between calls. When a chunk ending in a carriage
  return is followed by a chunk starting with a line feed, the two calls emit two line
  feeds at the cut, one call on the concatenation emits one (the output buffer having room
  for the input, as in \<^verbatim>\<open>main\<close>). Fed to the accumulator, the two chunks emit the lines
  of the single chunk with one more, empty, line between them.
\<close>

theorem normalize_crlf_split:
  assumes cap: "length (xs @ CR # LF # ys) \<le> outcap"
  shows "normalize_incoming (xs @ [CR]) outcap @ normalize_incoming (LF # ys) outcap
           = normalize_incoming xs outcap @ [LF, LF] @ normalize_incoming ys outcap
       \<and> normalize_incoming (xs @ CR # LF # ys) outcap
           = normalize_incoming xs outcap @ [LF] @ normalize_incoming ys outcap
       \<and> (case rx_feed rx_acc (normalize_incoming (xs @ [CR]) outcap) of
            (l1, _) \<Rightarrow>
              case rx_feed [] (normalize_incoming ys outcap) of
                (l2, r) \<Rightarrow>
                  rx_feed_all rx_acc
                      [normalize_incoming (xs @ [CR]) outcap, normalize_incoming (LF # ys) outcap]
                    = (l1 @ [] # l2, r)
                  \<and> rx_feed_all rx_acc [normalize_incoming (xs @ CR # LF # ys) outcap]
                    = (l1 @ l2, r))"
proof -
  let ?nx = "normalize_incoming xs outcap" and ?ny = "normalize_incoming ys outcap"
  from cap have cap1: "length xs < outcap" and cap2: "length ys < outcap" by simp_all
  have a: "normalize_incoming (xs @ [CR]) outcap = ?nx @ [LF]"
    by (rule normalize_incoming_CR_end [OF cap1])
  have b: "normalize_incoming (LF # ys) outcap = LF # ?ny"
    by (rule normalize_incoming_LF_start [OF cap2])
  have c: "normalize_incoming (xs @ CR # LF # ys) outcap = ?nx @ [LF] @ ?ny"
    by (rule normalize_incoming_CRLF [OF cap])
  obtain l1 r1 where f1: "split_lf [] (rx_acc @ ?nx @ [LF]) = (l1, r1)"
    by (cases "split_lf [] (rx_acc @ ?nx @ [LF])") auto
  have r1: "r1 = []"
    using split_lf_ends_LF [of "[]" "rx_acc @ ?nx"] f1 by simp
  obtain l2 r where f2: "split_lf [] ?ny = (l2, r)"
    by (cases "split_lf [] ?ny") auto
  have feed1: "rx_feed rx_acc (?nx @ [LF]) = (l1, [])"
    using f1 r1 by (simp add: rx_feed_def rx_accumulate_split_lf)
  have feed2: "rx_feed [] (LF # ?ny) = ([] # l2, r)"
    using f2 by (simp add: rx_feed_split_lf)
  have feed3: "rx_feed rx_acc (?nx @ [LF] @ ?ny) = (l1 @ l2, r)"
    using split_lf_append_LF [of "[]" "rx_acc @ ?nx" ?ny] f1 f2
    by (simp add: rx_feed_def rx_accumulate_split_lf)
  have feed4: "rx_feed [] ?ny = (l2, r)"
    using f2 by (simp add: rx_feed_split_lf)
  show ?thesis
    using a b c feed1 feed2 feed3 feed4 by simp
qed

theorem normalize_crlf_split_witness:
  "normalize_incoming (''AB'' @ [CR]) 65536 @ normalize_incoming (LF # ''CD'' @ [LF]) 65536
      = ''AB'' @ [LF, LF] @ ''CD'' @ [LF]
   \<and> normalize_incoming (''AB'' @ CR # LF # ''CD'' @ [LF]) 65536 = ''AB'' @ [LF] @ ''CD'' @ [LF]
   \<and> rx_feed_all []
        [normalize_incoming (''AB'' @ [CR]) 65536, normalize_incoming (LF # ''CD'' @ [LF]) 65536]
      = ([''AB'', [], ''CD''], [])
   \<and> rx_feed_all [] [normalize_incoming (''AB'' @ CR # LF # ''CD'' @ [LF]) 65536]
      = ([''AB'', ''CD''], [])"
proof -
  have n1: "normalize_incoming [CHR ''A'', CHR ''B''] 65536 = [CHR ''A'', CHR ''B'']"
    by (simp add: normalize_incoming_def put_def CR_def LF_def)
  have n2: "normalize_incoming [CHR ''C'', CHR ''D'', LF] 65536 = [CHR ''C'', CHR ''D'', LF]"
    by (simp add: normalize_incoming_def put_def CR_def LF_def)
  have n3: "normalize_incoming [CHR ''A'', CHR ''B'', CR] 65536 = [CHR ''A'', CHR ''B'', LF]"
    by (simp add: normalize_incoming_def put_def CR_def LF_def)
  have n4: "normalize_incoming [LF, CHR ''C'', CHR ''D'', LF] 65536 = [LF, CHR ''C'', CHR ''D'', LF]"
    by (simp add: normalize_incoming_def put_def CR_def LF_def)
  have f1: "rx_feed [] [CHR ''A'', CHR ''B'', LF] = ([''AB''], [])"
    by (simp add: rx_feed_def rx_accumulate_def extract_lines.simps LF_def)
  have f2: "rx_feed [] [CHR ''C'', CHR ''D'', LF] = ([''CD''], [])"
    by (simp add: rx_feed_def rx_accumulate_def extract_lines.simps LF_def)
  show ?thesis
    using normalize_crlf_split [of "''AB''" "''CD'' @ [LF]" 65536 "[]"]
    by (auto simp add: n1 n2 n3 n4 f1 f2)
qed


section \<open>Properties of the wrap algorithm\<close>

lemma cell_width_nonneg: "0 \<le> cell_width wcwidth ch"
  by (simp add: cell_width_def Let_def)

lemma disp_width_nonneg: "0 \<le> disp_width wcwidth seg"
  by (auto simp: disp_width_def cell_width_nonneg intro!: sum_list_nonneg)

lemma segment_Suc:
  "start \<le> i \<Longrightarrow> i < length line \<Longrightarrow> segment line start (Suc i) = segment line start i @ [line ! i]"
  by (simp add: segment_def Suc_diff_le take_Suc_conv_app_nth)

lemma disp_width_segment_Suc:
  "start \<le> i \<Longrightarrow> i < length line \<Longrightarrow>
   disp_width wcwidth (segment line start (Suc i))
     = disp_width wcwidth (segment line start i) + cell_width wcwidth (line ! i)"
  by (simp add: segment_Suc disp_width_def)

lemma segment_mono_width:
  assumes "start \<le> a" "a \<le> b"
  shows "disp_width wcwidth (segment line start a) \<le> disp_width wcwidth (segment line start b)"
proof -
  have "b - start = (a - start) + (b - a)" using assms by simp
  then have "take (b - start) (drop start line)
      = take (a - start) (drop start line) @ take (b - a) (drop (a - start) (drop start line))"
    by (simp only: take_add)
  then have "segment line start b = segment line start a @ take (b - a) (drop a line)"
    using assms by (simp add: segment_def)
  then show ?thesis
    using disp_width_nonneg [of wcwidth "take (b - a) (drop a line)"]
    by (simp add: disp_width_def)
qed

lemma wrap_scan_inv:
  assumes "wrap_scan wcwidth iswpunct line width i col lb clb = (i', col', ov, lb', clb')"
    and "start \<le> i" and "i \<le> length line"
    and "col = disp_width wcwidth (segment line start i)"
    and "col < width"
    and "lb = -1 \<or> (int start \<le> lb \<and> lb < int i)"
  shows "i \<le> i' \<and> i' \<le> length line
     \<and> col' = disp_width wcwidth (segment line start i')
     \<and> col' \<le> width
     \<and> (\<not> ov \<longrightarrow> i < length line \<longrightarrow> i < i')
     \<and> (ov \<longrightarrow> i' < length line \<and> col' < width \<and> width < col' + cell_width wcwidth (line ! i'))
     \<and> (lb' = -1 \<or> (int start \<le> lb' \<and> lb' < int i')
          \<or> (lb' = int i' \<and> ov \<and> is_break iswpunct (line ! i')))"
  using assms
proof (induction wcwidth iswpunct line width i col lb clb rule: wrap_scan.induct)
  case (1 wcwidth iswpunct line width i col lb clb)
  show ?case
  proof (cases "i < length line")
    case False
    with "1.prems" show ?thesis by (auto simp add: wrap_scan.simps [of _ _ _ _ i])
  next
    case True
    let ?ch = "line ! i"
    let ?w = "cell_width wcwidth ?ch"
    let ?lb = "if ?ch = WSPACE \<or> iswpunct ?ch then int i else lb"
    let ?clb = "if ?ch = WSPACE \<or> iswpunct ?ch then col + ?w else clb"
    have w0: "0 \<le> ?w" by (rule cell_width_nonneg)
    show ?thesis
    proof (cases "col + ?w > width")
      case over: True
      with True "1.prems"(1) have res: "i' = i" "col' = col" "ov" "lb' = ?lb"
        by (auto simp add: wrap_scan.simps [of _ _ _ _ i] Let_def)
      with True over "1.prems" show ?thesis
        by (auto simp: is_break_def)
    next
      case fits: False
      have colS: "col + ?w = disp_width wcwidth (segment line start (Suc i))"
        using disp_width_segment_Suc [OF "1.prems"(2) True] "1.prems"(4) by simp
      show ?thesis
      proof (cases "col + ?w = width")
        case eq: True
        with True fits "1.prems"(1) have res: "i' = Suc i" "col' = col + ?w" "\<not> ov" "lb' = ?lb"
          by (auto simp add: wrap_scan.simps [of _ _ _ _ i] Let_def)
        with True eq colS "1.prems" show ?thesis
          by auto
      next
        case neq: False
        from True fits neq "1.prems"(1)
        have rec: "wrap_scan wcwidth iswpunct line width (i + 1) (col + ?w) ?lb ?clb = (i', col', ov, lb', clb')"
          by (simp add: wrap_scan.simps [of _ _ _ _ i] Let_def)
        have a: "start \<le> i + 1" using "1.prems"(2) by simp
        have b: "i + 1 \<le> length line" using True by simp
        have c: "col + ?w = disp_width wcwidth (segment line start (i + 1))" using colS by simp
        have d: "col + ?w < width" using fits neq by simp
        have e: "?lb = -1 \<or> (int start \<le> ?lb \<and> ?lb < int (i + 1))"
          using "1.prems"(2,6) by auto
        from "1.IH" [OF True refl refl refl refl _ _ rec a b c d e] fits neq
        show ?thesis by auto
      qed
    qed
  qed
qed




lemma segment_self [simp]: "segment line i i = []"
  by (simp add: segment_def)

lemma segment_append:
  assumes "i \<le> e" "e \<le> n"
  shows "segment line i n = segment line i e @ segment line e n"
proof -
  have "n - i = (e - i) + (n - e)" using assms by simp
  then have "take (n - i) (drop i line)
      = take (e - i) (drop i line) @ take (n - e) (drop (e - i) (drop i line))"
    by (simp only: take_add)
  then show ?thesis using assms by (simp add: segment_def)
qed

lemma segment_single: "i < length line \<Longrightarrow> segment line i (Suc i) = [line ! i]"
  using segment_Suc [of i i line] by simp

lemma segment_nonempty: "i < e \<Longrightarrow> i < length line \<Longrightarrow> segment line i e \<noteq> []"
  by (simp add: segment_def)

lemma segment_drop:
  assumes "i \<le> n"
  shows "drop i line = segment line i n @ drop n line"
proof -
  have "drop (n - i) (drop i line) = drop n line" using assms by simp
  then show ?thesis
    unfolding segment_def by (metis append_take_drop_id)
qed

lemma skip_spaces_spec:
  "e \<le> length line \<Longrightarrow>
   e \<le> skip_spaces line e \<and> skip_spaces line e \<le> length line
   \<and> set (segment line e (skip_spaces line e)) \<subseteq> {WSPACE}"
proof (induction line e rule: skip_spaces.induct)
  case (1 line e)
  show ?case
  proof (cases "e < length line \<and> line ! e = WSPACE")
    case False
    then have "skip_spaces line e = e" by (auto simp add: skip_spaces.simps [of line e])
    with "1.prems" show ?thesis by simp
  next
    case True
    then have eq: "skip_spaces line e = skip_spaces line (e + 1)"
      by (simp add: skip_spaces.simps [of line e])
    from True have le: "e + 1 \<le> length line" by simp
    from "1.IH" [OF True le] have ih: "e + 1 \<le> skip_spaces line (e + 1)"
      "skip_spaces line (e + 1) \<le> length line"
      "set (segment line (e + 1) (skip_spaces line (e + 1))) \<subseteq> {WSPACE}" by simp_all
    have "segment line e (skip_spaces line (e + 1))
        = segment line e (e + 1) @ segment line (e + 1) (skip_spaces line (e + 1))"
      using segment_append [of e "e + 1" "skip_spaces line (e + 1)" line] ih(1) by simp
    with ih True eq show ?thesis
      by (simp add: segment_single)
  qed
qed

lemma segment_end_spec:
  fixes wcwidth :: "wchar_t \<Rightarrow> int" and iswpunct :: "wchar_t \<Rightarrow> bool"
    and line :: wstring and width :: int and i :: nat
  assumes W: "1 \<le> width" and lt: "i < length line"
  defines "e \<equiv> segment_end i (wrap_scan wcwidth iswpunct line width i 0 (- 1) 0)"
  shows "i < e \<and> e \<le> length line
    \<and> ((\<forall>c \<in> set line. is_break iswpunct c \<longrightarrow> cell_width wcwidth c \<le> 1) \<longrightarrow>
         disp_width wcwidth (segment line i e) \<le> width
         \<or> (segment line i e = [line ! i] \<and> width < cell_width wcwidth (line ! i)))"
proof -
  obtain i' col' ov lb' clb'
    where scan: "wrap_scan wcwidth iswpunct line width i 0 (- 1) 0 = (i', col', ov, lb', clb')"
    by (cases "wrap_scan wcwidth iswpunct line width i 0 (- 1) 0") auto
  have c0: "0 = disp_width wcwidth (segment line i i)" by (simp add: disp_width_def)
  have w0: "(0::int) < width" using W by simp
  have l0: "i \<le> length line" using lt by simp
  have b0: "(- 1 :: int) = -1 \<or> (int i \<le> - 1 \<and> - 1 < int i)" by simp
  note inv = wrap_scan_inv [OF scan le_refl l0 c0 w0 b0]
  from inv have mono: "i \<le> i'" and bound: "i' \<le> length line"
    and col: "col' = disp_width wcwidth (segment line i i')" and colW: "col' \<le> width"
    and prog: "\<not> ov \<Longrightarrow> i < i'"
    and over: "ov \<Longrightarrow> i' < length line \<and> col' < width \<and> width < col' + cell_width wcwidth (line ! i')"
    and lb: "lb' = -1 \<or> (int i \<le> lb' \<and> lb' < int i') \<or> (lb' = int i' \<and> ov \<and> is_break iswpunct (line ! i'))"
    using lt by simp_all
  show ?thesis
  proof (cases ov)
    case False
    then have "e = i'" by (auto simp add: e_def scan segment_end_def)
    with prog [OF False] bound col colW show ?thesis by simp
  next
    case True
    note ov = over [OF True]
    show ?thesis
    proof (cases "lb' \<ge> int i \<and> clb' > 0")
      case brk: True
      then have e: "e = nat lb' + 1" using True by (auto simp add: e_def scan segment_end_def)
      from brk lb have "(int i \<le> lb' \<and> lb' < int i') \<or> (lb' = int i' \<and> is_break iswpunct (line ! i'))"
        by auto
      then show ?thesis
      proof
        assume inside: "int i \<le> lb' \<and> lb' < int i'"
        then have le: "i \<le> e" "e \<le> i'" "i < e" using e by linarith+
        from segment_mono_width [OF le(1) le(2), of wcwidth line] col colW
        have "disp_width wcwidth (segment line i e) \<le> width" by simp
        with le bound show ?thesis by simp
      next
        assume at: "lb' = int i' \<and> is_break iswpunct (line ! i')"
        then have e': "e = i' + 1" using e by simp
        have "\<not> (\<forall>c \<in> set line. is_break iswpunct c \<longrightarrow> cell_width wcwidth c \<le> 1)"
        proof
          assume "\<forall>c \<in> set line. is_break iswpunct c \<longrightarrow> cell_width wcwidth c \<le> 1"
          with at ov have "cell_width wcwidth (line ! i') \<le> 1" by simp
          with ov show False by simp
        qed
        with e' mono ov show ?thesis by auto
      qed
    next
      case nobrk: False
      show ?thesis
      proof (cases "i' = i")
        case same: True
        with nobrk True have e: "e = i + 1" by (auto simp add: e_def scan segment_end_def)
        from same col have "col' = 0" by (simp add: disp_width_def)
        with ov same have "width < cell_width wcwidth (line ! i)" by simp
        with e lt segment_single [OF lt] show ?thesis by simp
      next
        case diff: False
        with nobrk True have e: "e = i'" by (auto simp add: e_def scan segment_end_def)
        with diff mono bound col colW show ?thesis by simp
      qed
    qed
  qed
qed


lemma wrap_segments_props:
  assumes W: "1 \<le> width" and le: "i \<le> length line"
  shows "(\<forall>seg \<in> set (wrap_segments wcwidth iswpunct line width i). seg \<noteq> [])
    \<and> (\<exists>gaps. length gaps = length (wrap_segments wcwidth iswpunct line width i)
          \<and> (\<forall>g \<in> set gaps. set g \<subseteq> {WSPACE})
          \<and> concat (map2 (@) (wrap_segments wcwidth iswpunct line width i) gaps) = drop i line)
    \<and> ((\<forall>c \<in> set line. is_break iswpunct c \<longrightarrow> cell_width wcwidth c \<le> 1) \<longrightarrow>
          (\<forall>seg \<in> set (wrap_segments wcwidth iswpunct line width i). fits wcwidth width seg))"
  using assms
proof (induction wcwidth iswpunct line width i rule: wrap_segments.induct)
  case (1 wcwidth iswpunct line width i)
  show ?case
  proof (cases "i < length line")
    case False
    then have "wrap_segments wcwidth iswpunct line width i = []"
      by (simp add: wrap_segments.simps [of _ _ line width i])
    with False "1.prems" show ?thesis by simp
  next
    case True
    define e where "e = segment_end i (wrap_scan wcwidth iswpunct line width i 0 (- 1) 0)"
    define n where "n = skip_spaces line e"
    from segment_end_spec [OF "1.prems"(1) True, of wcwidth iswpunct]
    have e: "i < e" "e \<le> length line"
      and wd: "(\<forall>c \<in> set line. is_break iswpunct c \<longrightarrow> cell_width wcwidth c \<le> 1) \<Longrightarrow>
         fits wcwidth width (segment line i e)"
      by (auto simp: e_def fits_def)
    from skip_spaces_spec [OF e(2)]
    have n: "e \<le> n" "n \<le> length line" "set (segment line e n) \<subseteq> {WSPACE}"
      by (simp_all add: n_def)
    have unfold: "wrap_segments wcwidth iswpunct line width i
        = segment line i e # wrap_segments wcwidth iswpunct line width n"
      using True by (simp add: wrap_segments.simps [of _ _ line width i] e_def n_def Let_def)
    note IH = "1.IH" [OF True e_def [symmetric, THEN sym] "1.prems"(1), folded n_def, OF n(2)]
    from IH have ih1: "\<forall>seg \<in> set (wrap_segments wcwidth iswpunct line width n). seg \<noteq> []"
      by (rule conjunct1)
    from IH have ih2: "\<exists>gaps. length gaps = length (wrap_segments wcwidth iswpunct line width n)
          \<and> (\<forall>g \<in> set gaps. set g \<subseteq> {WSPACE})
          \<and> concat (map2 (@) (wrap_segments wcwidth iswpunct line width n) gaps) = drop n line"
      by (rule conjunct2 [THEN conjunct1])
    from IH have ih3: "(\<forall>c \<in> set line. is_break iswpunct c \<longrightarrow> cell_width wcwidth c \<le> 1) \<longrightarrow>
          (\<forall>seg \<in> set (wrap_segments wcwidth iswpunct line width n). fits wcwidth width seg)"
      by (rule conjunct2 [THEN conjunct2])
    from ih2 obtain gaps where gaps:
      "length gaps = length (wrap_segments wcwidth iswpunct line width n)"
      "\<forall>g \<in> set gaps. set g \<subseteq> {WSPACE}"
      "concat (map2 (@) (wrap_segments wcwidth iswpunct line width n) gaps) = drop n line"
      by blast
    have split: "drop i line = segment line i e @ segment line e n @ drop n line"
      using segment_drop [of i e line] segment_drop [of e n line] e n by simp
    have nonempty: "segment line i e \<noteq> []"
      using segment_nonempty [OF e(1) True] .
    have A: "\<forall>seg \<in> set (wrap_segments wcwidth iswpunct line width i). seg \<noteq> []"
      using ih1 nonempty by (simp add: unfold)
    have "length (segment line e n # gaps) = length (wrap_segments wcwidth iswpunct line width i)
        \<and> (\<forall>g \<in> set (segment line e n # gaps). set g \<subseteq> {WSPACE})
        \<and> concat (map2 (@) (wrap_segments wcwidth iswpunct line width i) (segment line e n # gaps))
            = drop i line"
      using gaps n(3) split by (simp add: unfold)
    then have B: "\<exists>gaps. length gaps = length (wrap_segments wcwidth iswpunct line width i)
          \<and> (\<forall>g \<in> set gaps. set g \<subseteq> {WSPACE})
          \<and> concat (map2 (@) (wrap_segments wcwidth iswpunct line width i) gaps) = drop i line"
      by (rule exI)
    have C: "(\<forall>c \<in> set line. is_break iswpunct c \<longrightarrow> cell_width wcwidth c \<le> 1) \<longrightarrow>
          (\<forall>seg \<in> set (wrap_segments wcwidth iswpunct line width i). fits wcwidth width seg)"
      using ih3 wd by (simp add: unfold)
    from A B C show ?thesis by (intro conjI)
  qed
qed


text \<open>
  Claim C3, as amended. For every logical line and every width of at least 1: no visual
  line produced by the wrap is empty; the logical line is the visual lines put end to
  end with a run of spaces (possibly empty) after each, the spaces skipped at the cut;
  and, provided no space or punctuation character of the line is wider than one cell,
  every visual line has a display width of at most the width or consists of one single
  character that is wider than the width.
\<close>

theorem wrap_bounds:
  assumes W: "1 \<le> width"
  shows "(\<forall>seg \<in> set (wrap_segments wcwidth iswpunct line width 0). seg \<noteq> [])
    \<and> (\<exists>gaps. length gaps = length (wrap_segments wcwidth iswpunct line width 0)
          \<and> (\<forall>g \<in> set gaps. set g \<subseteq> {WSPACE})
          \<and> concat (map2 (@) (wrap_segments wcwidth iswpunct line width 0) gaps) = line)
    \<and> ((\<forall>c \<in> set line. is_break iswpunct c \<longrightarrow> cell_width wcwidth c \<le> 1) \<longrightarrow>
          (\<forall>seg \<in> set (wrap_segments wcwidth iswpunct line width 0).
             disp_width wcwidth seg \<le> width \<or> (\<exists>c. seg = [c] \<and> width < cell_width wcwidth c)))"
  using wrap_segments_props [OF W, of 0 line wcwidth iswpunct] by (simp add: fits_def)

lemma hello: "wrap_segments wcwidth_ex iswpunct_ex (wcs ''hello world'') 5 0 = [wcs ''hello'', wcs ''world'']"
  by (simp add: wcs_def wrap_segments.simps wrap_scan.simps skip_spaces.simps segment_end_def segment_def
      cell_width_def wcwidth_ex_def iswpunct_ex_def WSPACE_def Let_def)

theorem wrap_bounds_witness:
  "wrap_segments wcwidth_ex iswpunct_ex (wcs ''hello world'') 5 0 = [wcs ''hello'', wcs ''world'']
   \<and> disp_width wcwidth_ex (wcs ''hello'') \<le> 5 \<and> disp_width wcwidth_ex (wcs ''world'') \<le> 5"
proof -
  have narrow: "\<forall>c \<in> set (wcs ''hello world''). is_break iswpunct_ex c \<longrightarrow> cell_width wcwidth_ex c \<le> 1"
    by (simp add: wcs_def is_break_def cell_width_def wcwidth_ex_def iswpunct_ex_def WSPACE_def)
  have single: "\<not> (\<exists>c. wcs ''hello'' = [c] \<and> P c)" "\<not> (\<exists>c. wcs ''world'' = [c] \<and> P c)" for P
    by (simp_all add: wcs_def)
  note inst = wrap_bounds [of 5 wcwidth_ex iswpunct_ex "wcs ''hello world''", unfolded hello]
  from inst narrow single show ?thesis
    by (simp add: hello)
qed

text \<open>
  The claim as stated fails: in a one-cell width the ideograph U+4E2D, two cells wide, is
  forced onto a visual line of its own, whose display width 2 exceeds the width 1.
\<close>

theorem wrap_width_counterexample:
  "wrap_segments wcwidth_ex iswpunct_ex [0x4E2D] 1 0 = [[0x4E2D]]
   \<and> \<not> disp_width wcwidth_ex [0x4E2D] \<le> 1"
  by (simp add: wrap_segments.simps wrap_scan.simps skip_spaces.simps segment_end_def segment_def
      cell_width_def disp_width_def wcwidth_ex_def iswpunct_ex_def WSPACE_def Let_def)

text \<open>
  A break opportunity is recorded before the overflow test, so a punctuation character of
  two cells that does not fit any more is still kept on the line: in width 3 the line
  \<^verbatim>\<open>ab\<close> followed by the ideographic comma is one visual line of width 4.
\<close>

lemma wrap_wide_break_overflow:
  "wrap_segments wcwidth_ex iswpunct_ex [97, 98, 0x3001, 99] 3 0 = [[97, 98, 0x3001], [99]]
   \<and> disp_width wcwidth_ex [97, 98, 0x3001] = 4"
  by (simp add: wrap_segments.simps wrap_scan.simps skip_spaces.simps segment_end_def segment_def
      cell_width_def disp_width_def wcwidth_ex_def iswpunct_ex_def WSPACE_def Let_def)


section \<open>Properties of the rings and the scroll position\<close>

lemma max_top_eq: "max_top u = max 0 (vis_count u - visible u)"
  by (simp add: max_top_def Let_def)

lemma push_visual_w_fields [simp]:
  "rows (push_visual_w s u) = rows u" "cols (push_visual_w s u) = cols u"
  "store (push_visual_w s u) = store u"
  by (simp_all add: push_visual_w_def)

lemma push_visual_w_len: "length (visual u) \<le> VIS_MAX \<Longrightarrow> length (visual (push_visual_w s u)) \<le> VIS_MAX"
  by (auto simp: push_visual_w_def vis_count_def VIS_MAX_def)

lemma push_visual_w_inv: "ui_inv u \<Longrightarrow> ui_inv (push_visual_w s u)"
  by (auto simp: ui_inv_def push_visual_w_def vis_count_def visible_def Let_def VIS_MAX_def)

lemma push_all_fields [simp]:
  "rows (foldl (\<lambda>u seg. push_visual_w seg u) u segs) = rows u"
  "cols (foldl (\<lambda>u seg. push_visual_w seg u) u segs) = cols u"
  "store (foldl (\<lambda>u seg. push_visual_w seg u) u segs) = store u"
  by (induction segs arbitrary: u) simp_all

lemma push_all_len:
  "length (visual u) \<le> VIS_MAX \<Longrightarrow> length (visual (foldl (\<lambda>u seg. push_visual_w seg u) u segs)) \<le> VIS_MAX"
  by (induction segs arbitrary: u) (simp_all add: push_visual_w_len)

lemma push_all_inv: "ui_inv u \<Longrightarrow> ui_inv (foldl (\<lambda>u seg. push_visual_w seg u) u segs)"
  by (induction segs arbitrary: u) (simp_all add: push_visual_w_inv)

lemma wrap_and_push_wide_fields [simp]:
  "rows (wrap_and_push_wide wcwidth iswpunct line width u) = rows u"
  "cols (wrap_and_push_wide wcwidth iswpunct line width u) = cols u"
  "store (wrap_and_push_wide wcwidth iswpunct line width u) = store u"
  by (simp_all add: wrap_and_push_wide_def Let_def)

lemma wrap_and_push_wide_len:
  "length (visual u) \<le> VIS_MAX \<Longrightarrow> length (visual (wrap_and_push_wide wcwidth iswpunct line width u)) \<le> VIS_MAX"
  by (simp add: wrap_and_push_wide_def Let_def push_all_len)

lemma wrap_and_push_wide_inv: "ui_inv u \<Longrightarrow> ui_inv (wrap_and_push_wide wcwidth iswpunct line width u)"
  by (simp add: wrap_and_push_wide_def Let_def push_all_inv)

lemma view_top_clamp_inv:
  assumes "length (store u) \<le> STORE_MAX" "length (visual u) \<le> VIS_MAX"
    and "0 \<le> t" "t \<le> max 0 (vis_count u - visible u)"
  shows "ui_inv (u\<lparr>view_top := t\<rparr>)"
  using assms by (simp add: ui_inv_def vis_count_def visible_def)

lemma add_logical_line_w_inv:
  assumes "ui_inv u"
  shows "ui_inv (add_logical_line_w wcwidth iswpunct line follow u)"
proof -
  define u1 where "u1 = (if store_count u < int STORE_MAX then u\<lparr>store := store u @ [line]\<rparr>
               else u\<lparr>store := take (STORE_MAX - 1) (tl (store u)) @ [line]\<rparr>)"
  have "ui_inv u1"
    using assms by (auto simp: u1_def ui_inv_def store_count_def vis_count_def visible_def STORE_MAX_def)
  then have inv2: "ui_inv (wrap_and_push_wide wcwidth iswpunct line w u1)" for w
    by (rule wrap_and_push_wide_inv)
  have "ui_inv (let t = vis_count u2 - visible u2 in u2\<lparr>view_top := (if t < 0 then 0 else t)\<rparr>)"
    if "ui_inv u2" for u2
    using that by (auto simp: ui_inv_def Let_def vis_count_def visible_def)
  with inv2 show ?thesis
    by (simp add: add_logical_line_w_def Let_def u1_def [symmetric])
qed

lemma reflow_loop_fields [simp]:
  "rows (foldl (\<lambda>u line. wrap_and_push_wide wcwidth iswpunct line width u) u ls) = rows u"
  "cols (foldl (\<lambda>u line. wrap_and_push_wide wcwidth iswpunct line width u) u ls) = cols u"
  "store (foldl (\<lambda>u line. wrap_and_push_wide wcwidth iswpunct line width u) u ls) = store u"
  by (induction ls arbitrary: u) simp_all

lemma reflow_loop_len:
  "length (visual u) \<le> VIS_MAX \<Longrightarrow>
   length (visual (foldl (\<lambda>u line. wrap_and_push_wide wcwidth iswpunct line width u) u ls)) \<le> VIS_MAX"
  by (induction ls arbitrary: u) (simp_all add: wrap_and_push_wide_len)

lemma reflow_inv:
  assumes "length (store u) \<le> STORE_MAX"
  shows "ui_inv (reflow wcwidth iswpunct keep_bottom u)"
proof -
  define w where "w = (let width = cols (free_visual u) - 1 in if width < 1 then 1 else width)"
  define u2 where "u2 = foldl (\<lambda>u line. wrap_and_push_wide wcwidth iswpunct line w u) (free_visual u) (store (free_visual u))"
  have len: "length (visual u2) \<le> VIS_MAX"
    unfolding u2_def by (rule reflow_loop_len) (simp add: free_visual_def)
  have st: "length (store u2) \<le> STORE_MAX"
    using assms by (simp add: u2_def free_visual_def)
  have "reflow wcwidth iswpunct keep_bottom u =
     (if keep_bottom then
          (let t = vis_count u2 - visible u2 in u2\<lparr>view_top := (if t < 0 then 0 else t)\<rparr>)
        else
          (let t = (if view_top u2 > max_top u2 then max_top u2 else view_top u2)
           in u2\<lparr>view_top := (if t < 0 then 0 else t)\<rparr>))"
    by (simp add: reflow_def Let_def u2_def w_def)
  with len st show ?thesis
    by (auto simp: ui_inv_def Let_def max_top_eq vis_count_def visible_def)
qed

lemma render_out_inv: "ui_inv u \<Longrightarrow> ui_inv (render_out u)"
  by (auto simp: render_out_def ui_inv_def max_top_eq vis_count_def visible_def Let_def)

lemma ui_inv_store: "ui_inv u \<Longrightarrow> length (store u) \<le> STORE_MAX"
  by (simp add: ui_inv_def)

lemma ui_step_inv: "ui_inv u \<Longrightarrow> ui_inv (ui_step wcwidth iswpunct u op)"
proof (cases op)
  case (Append line follow)
  assume "ui_inv u"
  then show ?thesis using Append by (simp add: add_logical_line_w_inv)
next
  case (Reflow kb)
  assume "ui_inv u"
  then show ?thesis using Reflow by (simp add: reflow_inv ui_inv_store)
next
  case (Resize r c)
  assume "ui_inv u"
  then have "length (store (u\<lparr>rows := r, cols := c\<rparr>)) \<le> STORE_MAX" by (simp add: ui_inv_def)
  from reflow_inv [OF this] show ?thesis
    using Resize by (simp add: resize_def Let_def render_out_inv)
next
  case Render
  assume "ui_inv u"
  then show ?thesis using Render by (simp add: render_out_inv)
next
  case Page_Up
  assume "ui_inv u"
  then have "ui_inv (u\<lparr>view_top := (if view_top u - visible u div 2 < 0 then 0 else view_top u - visible u div 2)\<rparr>)"
    by (auto simp: ui_inv_def vis_count_def visible_def Let_def)
  then show ?thesis using Page_Up by (simp add: key_ppage_def Let_def render_out_inv)
next
  case Page_Down
  assume "ui_inv u"
  then have "ui_inv (u\<lparr>view_top := (if view_top u + visible u div 2 > max_top u then max_top u else view_top u + visible u div 2)\<rparr>)"
    by (auto simp: ui_inv_def vis_count_def visible_def Let_def max_top_eq)
  then show ?thesis using Page_Down by (simp add: key_npage_def Let_def render_out_inv)
next
  case Home
  assume "ui_inv u"
  then have "ui_inv (u\<lparr>view_top := 0\<rparr>)"
    by (auto simp: ui_inv_def vis_count_def visible_def Let_def)
  then show ?thesis using Home by (simp add: key_home_def render_out_inv)
next
  case End
  assume "ui_inv u"
  then have "ui_inv (u\<lparr>view_top := (if vis_count u - visible u < 0 then 0 else vis_count u - visible u)\<rparr>)"
    by (auto simp: ui_inv_def vis_count_def visible_def Let_def)
  then show ?thesis using End by (simp add: key_end_def Let_def render_out_inv)
next
  case Line_Up
  assume "ui_inv u"
  then have "ui_inv (if view_top u > 0 then u\<lparr>view_top := view_top u - 1\<rparr> else u)"
    by (auto simp: ui_inv_def vis_count_def visible_def Let_def)
  then show ?thesis using Line_Up by (simp add: key_up_def render_out_inv)
next
  case Line_Down
  assume "ui_inv u"
  then have "ui_inv (if view_top u < max_top u then u\<lparr>view_top := view_top u + 1\<rparr> else u)"
    by (auto simp: ui_inv_def vis_count_def visible_def Let_def max_top_eq)
  then show ?thesis using Line_Down by (simp add: key_down_def render_out_inv)
qed

lemma ui_run_inv: "ui_inv u \<Longrightarrow> ui_inv (foldl (ui_step wcwidth iswpunct) u ops)"
  by (induction ops arbitrary: u) (simp_all add: ui_step_inv)


text \<open>
  Claim C8. After every sequence of appends, reflows, resizes, renders and scroll keys
  from the initial display state, the store holds at most \<^verbatim>\<open>STORE_MAX\<close> lines, the visual
  ring at most \<^verbatim>\<open>VIS_MAX\<close>, and \<^verbatim>\<open>view_top\<close> lies between 0 and
  \<open>max 0 (vis_count - visible)\<close>. A push on a full visual ring and an append on a full store
  remove exactly the oldest entry and add the new one last; on a ring that is not full
  nothing is removed.
\<close>

theorem ring_eviction_and_scroll_clamp:
  "(let u = foldl (ui_step wcwidth iswpunct) (ui_init r c) ops in
      length (store u) \<le> STORE_MAX \<and> length (visual u) \<le> VIS_MAX
      \<and> 0 \<le> view_top u \<and> view_top u \<le> max 0 (vis_count u - visible u))
   \<and> (length (visual v) = VIS_MAX \<longrightarrow> visual (push_visual_w s v) = tl (visual v) @ [s])
   \<and> (length (visual v) < VIS_MAX \<longrightarrow> visual (push_visual_w s v) = visual v @ [s])
   \<and> (length (store v) = STORE_MAX \<longrightarrow>
        store (add_logical_line_w wcwidth iswpunct line follow v) = tl (store v) @ [line])
   \<and> (length (store v) < STORE_MAX \<longrightarrow>
        store (add_logical_line_w wcwidth iswpunct line follow v) = store v @ [line])"
proof -
  have "ui_inv (ui_init r c)"
    by (simp add: ui_inv_def ui_init_def vis_count_def)
  from ui_run_inv [OF this, of wcwidth iswpunct ops]
  have a: "let u = foldl (ui_step wcwidth iswpunct) (ui_init r c) ops in
      length (store u) \<le> STORE_MAX \<and> length (visual u) \<le> VIS_MAX
      \<and> 0 \<le> view_top u \<and> view_top u \<le> max 0 (vis_count u - visible u)"
    by (simp add: ui_inv_def Let_def)
  have b: "length (visual v) = VIS_MAX \<longrightarrow> visual (push_visual_w s v) = tl (visual v) @ [s]"
    by (simp add: push_visual_w_def vis_count_def)
  have c: "length (visual v) < VIS_MAX \<longrightarrow> visual (push_visual_w s v) = visual v @ [s]"
    by (simp add: push_visual_w_def vis_count_def)
  have d: "length (store v) = STORE_MAX \<longrightarrow>
        store (add_logical_line_w wcwidth iswpunct line follow v) = tl (store v) @ [line]"
    by (simp add: add_logical_line_w_def store_count_def Let_def)
  have e: "length (store v) < STORE_MAX \<longrightarrow>
        store (add_logical_line_w wcwidth iswpunct line follow v) = store v @ [line]"
    by (simp add: add_logical_line_w_def store_count_def Let_def)
  from a b c d e show ?thesis by (intro conjI)
qed

theorem ring_eviction_and_scroll_clamp_witness:
  "visual (push_visual_w [120] ui_full) = tl (replicate 200000 []) @ [[120]]
   \<and> store (add_logical_line_w wcwidth_ex iswpunct_ex [120] True ui_full) = tl (replicate 20000 []) @ [[120]]
   \<and> visual (push_visual_w [120] (ui_init 24 80)) = [[120]]
   \<and> store (add_logical_line_w wcwidth_ex iswpunct_ex [120] True (ui_init 24 80)) = [[120]]"
proof -
  have full: "length (visual ui_full) = VIS_MAX" "length (store ui_full) = STORE_MAX"
    by (simp_all only: ui_full_def ui.simps length_replicate VIS_MAX_def STORE_MAX_def)
  have sel: "visual ui_full = replicate 200000 []" "store ui_full = replicate 20000 []"
    by (simp_all only: ui_full_def ui.simps)
  have empty: "length (visual (ui_init 24 80)) < VIS_MAX" "length (store (ui_init 24 80)) < STORE_MAX"
    "visual (ui_init 24 80) = []" "store (ui_init 24 80) = []"
    by (simp_all add: ui_init_def VIS_MAX_def STORE_MAX_def)
  note a = ring_eviction_and_scroll_clamp [of wcwidth_ex iswpunct_ex 24 80 "[]" ui_full "[120]" "[120]" True]
  note b = ring_eviction_and_scroll_clamp [of wcwidth_ex iswpunct_ex 24 80 "[]" "ui_init 24 80" "[120]" "[120]" True]
  from a full sel have 1: "visual (push_visual_w [120] ui_full) = tl (replicate 200000 []) @ [[120]]"
    and 2: "store (add_logical_line_w wcwidth_ex iswpunct_ex [120] True ui_full) = tl (replicate 20000 []) @ [[120]]"
    by metis+
  from b empty have 3: "visual (push_visual_w [120] (ui_init 24 80)) = [[120]]"
    and 4: "store (add_logical_line_w wcwidth_ex iswpunct_ex [120] True (ui_init 24 80)) = [[120]]"
    by (metis append_Nil)+
  from 1 2 3 4 show ?thesis by (intro conjI)
qed

section \<open>Properties of the blind autologin\<close>

lemma blind_run_append:
  "blind_run cr ab (xs @ ys) =
    (case blind_run cr ab xs of
       (ab', s1) \<Rightarrow> (case blind_run cr ab' ys of (ab'', s2) \<Rightarrow> (ab'', s1 @ s2)))"
  by (induction xs arbitrary: ab) (simp_all split: prod.splits)

lemma blind_step_wait_user:
  assumes "ab_enabled ab" "ab_stage ab = 0" "since_ms (ab_t0 ab) t < ab_du_ms ab"
  shows "blind_step cr ab t = (ab, [])"
  using assms by (simp add: blind_step_def autologin_try_blind_def Let_def)

lemma blind_step_send_user:
  assumes "ab_enabled ab" "ab_stage ab = 0" "ab_du_ms ab \<le> since_ms (ab_t0 ab) t"
  shows "blind_step cr ab t = (ab\<lparr>ab_stage := 1\<rparr>, send_line_utf8_telnet_safe cr (ab_user ab) [])"
  using assms by (simp add: blind_step_def autologin_try_blind_def Let_def)

lemma blind_step_wait_pass:
  assumes "ab_enabled ab" "ab_stage ab = 1" "since_ms (ab_t0 ab) t < ab_dp_ms ab"
  shows "blind_step cr ab t = (ab, [])"
  using assms by (simp add: blind_step_def autologin_try_blind_def Let_def)

lemma blind_step_send_pass:
  assumes "ab_enabled ab" "ab_stage ab = 1" "ab_dp_ms ab \<le> since_ms (ab_t0 ab) t"
  shows "blind_step cr ab t
    = (ab\<lparr>ab_stage := 2, ab_t_pass := t\<rparr>, send_line_utf8_telnet_safe cr (ab_pass ab) [])"
  using assms by (simp add: blind_step_def autologin_try_blind_def Let_def)

lemma blind_step_done:
  assumes "2 \<le> ab_stage ab"
  shows "blind_step cr ab t = (ab, [])"
  using assms by (simp add: blind_step_def)

lemma blind_run_wait_user:
  assumes "ab_enabled ab" "ab_stage ab = 0" "\<forall>t \<in> set ts. since_ms (ab_t0 ab) t < ab_du_ms ab"
  shows "blind_run cr ab ts = (ab, map (\<lambda>_. []) ts)"
  using assms(3) by (induction ts) (simp_all add: blind_step_wait_user [OF assms(1,2)])

lemma blind_run_wait_pass:
  assumes "ab_enabled ab" "ab_stage ab = 1" "\<forall>t \<in> set ts. since_ms (ab_t0 ab) t < ab_dp_ms ab"
  shows "blind_run cr ab ts = (ab, map (\<lambda>_. []) ts)"
  using assms(3) by (induction ts) (simp_all add: blind_step_wait_pass [OF assms(1,2)])

lemma blind_run_done:
  assumes "2 \<le> ab_stage ab"
  shows "blind_run cr ab ts = (ab, map (\<lambda>_. []) ts)"
  by (induction ts) (simp_all add: blind_step_done [OF assms])

text \<open>
  Claim C6. With the blind strategy enabled and started at \<open>t0\<close> (delays 150 ms and
  1000 ms, stage 0), over the successive evaluations of the loop, \<open>since_ms t0\<close> being the
  program's measure of the time elapsed: as long as every evaluation is before 150 ms,
  nothing is sent; the first evaluation at or after 150 ms sends the user line, once;
  after it nothing is sent before an evaluation at or after 1000 ms from \<open>t0\<close>; the first
  such evaluation sends the password line, once, and records its clock reading as
  \<^verbatim>\<open>t_pass\<close>; every later evaluation sends nothing.
\<close>

theorem blind_schedule:
  fixes ab0 :: autologin_blind_t and t0 :: timespec
  assumes en: "ab_enabled ab0" and st: "ab_stage ab0 = 0"
  defines "ab \<equiv> blind_init ab0 t0"
  shows "((\<forall>t \<in> set ts. since_ms t0 t < 150) \<longrightarrow>
            blind_run cr ab ts = (ab, map (\<lambda>_. []) ts))
    \<and> ((\<forall>t \<in> set pre. since_ms t0 t < 150) \<and> 150 \<le> since_ms t0 t1
          \<and> (\<forall>t \<in> set mid. since_ms t0 t < 1000) \<longrightarrow>
            blind_run cr ab (pre @ t1 # mid)
              = (ab\<lparr>ab_stage := 1\<rparr>,
                 map (\<lambda>_. []) pre @ [send_line_utf8_telnet_safe cr (ab_user ab0) []] @ map (\<lambda>_. []) mid))
    \<and> ((\<forall>t \<in> set pre. since_ms t0 t < 150) \<and> 150 \<le> since_ms t0 t1
          \<and> (\<forall>t \<in> set mid. since_ms t0 t < 1000) \<and> 1000 \<le> since_ms t0 t2 \<longrightarrow>
            blind_run cr ab (pre @ t1 # mid @ t2 # post)
              = (ab\<lparr>ab_stage := 2, ab_t_pass := t2\<rparr>,
                 map (\<lambda>_. []) pre @ [send_line_utf8_telnet_safe cr (ab_user ab0) []] @ map (\<lambda>_. []) mid
                 @ [send_line_utf8_telnet_safe cr (ab_pass ab0) []] @ map (\<lambda>_. []) post))"
proof -
  have ab: "ab_enabled ab" "ab_stage ab = 0" "ab_du_ms ab = 150" "ab_dp_ms ab = 1000"
    "ab_t0 ab = t0" "ab_user ab = ab_user ab0" "ab_pass ab = ab_pass ab0"
    using en st by (simp_all add: ab_def blind_init_def)
  let ?ab1 = "ab\<lparr>ab_stage := 1\<rparr>"
  have ab1: "ab_enabled ?ab1" "ab_stage ?ab1 = 1" "ab_dp_ms ?ab1 = 1000" "ab_t0 ?ab1 = t0"
    "ab_pass ?ab1 = ab_pass ab0"
    using ab by simp_all
  have one: "blind_run cr ab ts = (ab, map (\<lambda>_. []) ts)" if "\<forall>t \<in> set ts. since_ms t0 t < 150" for ts
    using blind_run_wait_user [OF ab(1,2), of ts cr] that ab by simp
  have user: "blind_step cr ab t1 = (?ab1, send_line_utf8_telnet_safe cr (ab_user ab0) [])"
    if "150 \<le> since_ms t0 t1"
    using blind_step_send_user [OF ab(1,2), of t1 cr] that ab by simp
  have mid: "blind_run cr ?ab1 mid = (?ab1, map (\<lambda>_. []) mid)"
    if "\<forall>t \<in> set mid. since_ms t0 t < 1000"
    using blind_run_wait_pass [OF ab1(1,2), of mid cr] that ab1 by simp
  have pass: "blind_step cr ?ab1 t2
      = (ab\<lparr>ab_stage := 2, ab_t_pass := t2\<rparr>, send_line_utf8_telnet_safe cr (ab_pass ab0) [])"
    if "1000 \<le> since_ms t0 t2"
    using blind_step_send_pass [OF ab1(1,2), of t2 cr] that ab1 by simp
  have post: "blind_run cr (ab\<lparr>ab_stage := 2, ab_t_pass := t2\<rparr>) post
      = (ab\<lparr>ab_stage := 2, ab_t_pass := t2\<rparr>, map (\<lambda>_. []) post)"
    by (rule blind_run_done) simp
  show ?thesis
    using one [of ts] one [of pre] user mid pass post
    by (simp add: blind_run_append)
qed

theorem blind_schedule_witness:
  "blind_run False (blind_init blind_ex (at_ms 5000)) [at_ms 5100, at_ms 5150, at_ms 5500, at_ms 6000, at_ms 6050]
     = ((blind_init blind_ex (at_ms 5000))\<lparr>ab_stage := 2, ab_t_pass := at_ms 6000\<rparr>,
        [[], ''U'' @ [CR, LF], [], ''P'' @ [CR, LF], []])"
proof -
  have t: "since_ms (at_ms 5000) (at_ms 5100) = 100" "since_ms (at_ms 5000) (at_ms 5150) = 150"
    "since_ms (at_ms 5000) (at_ms 5500) = 500" "since_ms (at_ms 5000) (at_ms 6000) = 1000"
    by (simp_all add: since_ms_def at_ms_def signed_divide_int_def)
  have l: "send_line_utf8_telnet_safe False ''U'' [] = ''U'' @ [CR, LF]"
    "send_line_utf8_telnet_safe False ''P'' [] = ''P'' @ [CR, LF]"
    by (simp_all add: send_line_utf8_telnet_safe_def send_eol_def cstr_def NUL_def IAC_def)
  have f: "ab_enabled blind_ex" "ab_stage blind_ex = 0" "ab_user blind_ex = ''U''" "ab_pass blind_ex = ''P''"
    by (simp_all add: blind_ex_def)
  from blind_schedule [OF f(1,2), where ?t0.0 = "at_ms 5000" and cr = False and ts = "[]"
      and pre = "[at_ms 5100]" and ?t1.0 = "at_ms 5150" and mid = "[at_ms 5500]" and ?t2.0 = "at_ms 6000"
      and post = "[at_ms 6050]"]
  show ?thesis
    by (simp add: t l f)
qed


section \<open>Properties of the prompt autologin\<close>

lemma strncasecmp_match:
  "map tolower m = map tolower marker \<Longrightarrow> strncasecmp (m @ post) marker (length marker) = 0"
proof (induction m arbitrary: marker)
  case Nil
  then show ?case by simp
next
  case (Cons x m)
  then obtain y marker' where mk: "marker = y # marker'" by (cases marker) auto
  with Cons.prems have "tolower x = tolower y" "map tolower m = map tolower marker'" by simp_all
  with Cons.IH [of marker'] mk show ?case by simp
qed

lemma istrstr_loop_finds:
  assumes "map tolower m = map tolower marker" "marker \<noteq> []"
  shows "istrstr_loop (pre @ m @ post) marker k \<noteq> None"
proof (induction pre arbitrary: k)
  case Nil
  from assms obtain x m' where m: "m = x # m'" by (cases m) auto
  with assms have hd: "tolower x = tolower (hd marker)" by (cases marker) auto
  from strncasecmp_match [OF assms(1), of post] m hd show ?case by simp
next
  case (Cons c pre)
  then show ?case by simp
qed

lemma istrstr_finds: "ci_occurs marker hay \<Longrightarrow> marker \<noteq> [] \<Longrightarrow> istrstr hay marker \<noteq> None"
  unfolding ci_occurs_def istrstr_def using istrstr_loop_finds [of _ marker] by auto

lemma tolower_NUL: "tolower y = NUL \<longleftrightarrow> y = NUL"
  by (auto simp: tolower_def NUL_def split: option.splits if_splits)

lemma of_char_zero: "(of_char c :: nat) = 0 \<longleftrightarrow> c = NUL"
  using of_char_eq_iff [of c NUL, where ?'a = nat] by (simp add: NUL_def)

lemma strncasecmp_zero:
  "strncasecmp a marker n = 0 \<Longrightarrow> NUL \<notin> set marker \<Longrightarrow> n = length marker \<Longrightarrow>
   \<exists>m post. a = m @ post \<and> map tolower m = map tolower marker"
proof (induction a marker n rule: strncasecmp.induct)
  case (1 a b)
  then show ?case by simp
next
  case (2 n)
  then show ?case by simp
next
  case (3 y b n)
  then show ?case by (simp add: of_char_zero tolower_NUL)
next
  case (4 x a n)
  then show ?case by simp
next
  case (5 x a y b n)
  show ?case
  proof (cases "tolower x = tolower y")
    case True
    with 5 obtain m post where "a = m @ post" "map tolower m = map tolower b" by auto
    with True have "x # a = (x # m) @ post \<and> map tolower (x # m) = map tolower (y # b)" by simp
    then show ?thesis by blast
  next
    case False
    with "5.prems" have "(of_char (tolower x) :: nat) = of_char (tolower y)" by simp
    with False show ?thesis by (simp add: of_char_eq_iff)
  qed
qed

lemma istrstr_loop_sound:
  "istrstr_loop hay marker k \<noteq> None \<Longrightarrow> NUL \<notin> set marker \<Longrightarrow> ci_occurs marker hay"
proof (induction hay arbitrary: k)
  case Nil
  then show ?case by simp
next
  case (Cons c hay)
  show ?case
  proof (cases "tolower c = tolower (hd marker) \<and> strncasecmp (c # hay) marker (length marker) = 0")
    case True
    with strncasecmp_zero [of "c # hay" marker "length marker"] Cons.prems
    obtain m post where "c # hay = m @ post" "map tolower m = map tolower marker" by auto
    then have "c # hay = [] @ m @ post \<and> map tolower m = map tolower marker" by simp
    then show ?thesis unfolding ci_occurs_def by blast
  next
    case False
    with Cons.prems have "istrstr_loop hay marker (Suc k) \<noteq> None" by auto
    from Cons.IH [OF this Cons.prems(2)] obtain pre m post
      where "hay = pre @ m @ post" "map tolower m = map tolower marker"
      unfolding ci_occurs_def by auto
    then have "c # hay = (c # pre) @ m @ post \<and> map tolower m = map tolower marker" by simp
    then show ?thesis unfolding ci_occurs_def by blast
  qed
qed

lemma istrstr_iff:
  assumes "marker \<noteq> []" "NUL \<notin> set marker"
  shows "istrstr hay marker \<noteq> None \<longleftrightarrow> ci_occurs marker hay"
  using istrstr_finds [OF _ assms(1)] istrstr_loop_sound [OF _ assms(2)] assms(1)
  by (auto simp: istrstr_def)


section \<open>Iterations of the loop with the input locked\<close>

lemma main_iter_idle_locked:
  assumes "\<not> ab_enabled (s_alb s)" "\<not> login_done_flag s" "ab_stage (s_alb s) \<noteq> 2" "input_locked s"
  shows "main_iter L cfg s (idle_at t) = Inr s"
  using assms
  by (simp add: main_iter_def idle_at_def blind_step_def delay_unlock_def auto_help_def)

lemma rx_branch_locked:
  assumes rd: "rx_read (s_tp s) (s_rx_acc s) inp = (tp', replies, out, ls, rx_acc')"
    and out: "out \<noteq> []"
    and rc: "recent_update (s_recent s) out = recent"
    and al: "(if al_enabled (s_alp s) \<and> al_state (s_alp s) < 2
              then autologin_try_prompt (opt_cr_only cfg) (s_alp s) (cstr recent) (s_tx s @ replies)
              else (s_alp s, s_tx s @ replies)) = (alp, tx)"
    and nd: "al_state alp \<noteq> 2"
    and quiet: "since_ms (ev_t_rx ev) (ev_t_quiet ev) < unlock_quiet_ms cfg"
  shows "rx_branch L cfg ev inp s =
    s\<lparr>s_tp := tp', s_rx_acc := rx_acc', s_ui := render_out (foldl (process_line L) (s_ui s) ls),
      s_last_rx := ev_t_rx ev, s_recent := recent, s_alp := alp, s_tx := tx\<rparr>"
proof (cases "al_enabled (s_alp s) \<and> al_state (s_alp s) < 2")
  case True
  with al have "autologin_try_prompt (opt_cr_only cfg) (s_alp s) (cstr recent) (s_tx s @ replies) = (alp, tx)"
    by simp
  moreover from True have c: "(al_enabled (s_alp s) \<and> al_state (s_alp s) < 2) = True" by simp
  ultimately show ?thesis
    using out rc nd quiet unfolding rx_branch_def rd by (simp add: Let_def c)
next
  case False
  with al have eq: "alp = s_alp s" "tx = s_tx s @ replies" by simp_all
  from False have c: "(al_enabled (s_alp s) \<and> al_state (s_alp s) < 2) = False" by simp
  from eq out rc nd quiet show ?thesis
    unfolding rx_branch_def rd by (simp add: Let_def c)
qed


lemma since_ms_same: "since_ms t t = 0"
  by (simp add: since_ms_def signed_divide_int_def)

lemma main_iter_read_locked:
  assumes blind: "\<not> ab_enabled (s_alb s)" "ab_stage (s_alb s) \<noteq> 2"
    and flags: "\<not> login_done_flag s" "input_locked s"
    and inp: "inp \<noteq> []"
    and rd: "rx_read (s_tp s) (s_rx_acc s) inp = (tp', replies, out, ls, rx_acc')"
    and out: "out \<noteq> []"
    and rc: "recent_update (s_recent s) out = recent"
    and al: "(if al_enabled (s_alp s) \<and> al_state (s_alp s) < 2
              then autologin_try_prompt (opt_cr_only cfg) (s_alp s) (cstr recent) (s_tx s @ replies)
              else (s_alp s, s_tx s @ replies)) = (alp, tx)"
    and nd: "al_state alp \<noteq> 2"
    and quiet: "0 < unlock_quiet_ms cfg"
  shows "main_iter L cfg s (read_at t inp) =
    Inr (s\<lparr>s_tp := tp', s_rx_acc := rx_acc', s_ui := render_out (foldl (process_line L) (s_ui s) ls),
           s_last_rx := t, s_recent := recent, s_alp := alp, s_tx := tx\<rparr>)"
proof -
  let ?ev = "read_at t inp"
  have ev: "ev_resize ?ev = None" "\<not> ev_select_err ?ev" "ev_rx ?ev = Rx_Read inp" "ev_key ?ev = None"
    "ev_t_rx ?ev = t" "ev_t_quiet ?ev = t"
    by (simp_all add: read_at_def idle_at_def)
  have bs: "blind_step (opt_cr_only cfg) (s_alb s) (ev_t_blind ?ev) = (s_alb s, [])"
    using blind by (simp add: blind_step_def)
  have s2: "s\<lparr>s_alb := s_alb s, s_tx := s_tx s @ []\<rparr> = s" by simp
  have q: "since_ms (ev_t_rx ?ev) (ev_t_quiet ?ev) < unlock_quiet_ms cfg"
    using quiet by (simp add: ev since_ms_same)
  note rb = rx_branch_locked [OF rd out rc al nd q, of L]
  show ?thesis
    using blind flags inp
    by (simp add: main_iter_def ev bs s2 rb delay_unlock_def auto_help_def)
qed


lemmas rx_eval =
  rx_read_def telnet_filter_and_reply_def telnet_byte_def put_def telnet_consts CR_def LF_def NUL_def
  normalize_incoming_def TMP_CAP_def OUT_CAP_def rx_feed_def rx_accumulate_def extract_lines.simps tp0_def
  Let_def

lemma send_line_N0CALL:
  "send_line_utf8_telnet_safe False ''N0CALL'' [] = [CHR ''N'', CHR ''0'', CHR ''C'', CHR ''A'', CHR ''L'', CHR ''L'', CR, LF]"
  by (simp add: send_line_utf8_telnet_safe_def send_eol_def cstr_def NUL_def IAC_def)

lemma cstr_login:
  "cstr ''login:'' = ''login:''" "cstr ''login: '' = ''login: ''"
  "cstr [CHR ''l'', CHR ''o'', CHR ''g'', CHR ''i'', CHR ''n'', CHR '':'', CHR '' '', LF]
     = [CHR ''l'', CHR ''o'', CHR ''g'', CHR ''i'', CHR ''n'', CHR '':'', CHR '' '', LF]"
  by (simp_all add: cstr_def NUL_def LF_def)

lemma istrstr_login:
  "istrstr ''login:'' ''login:'' = Some 0"
  "istrstr ''login: '' ''password:'' = None" "istrstr ''login: '' ''pass:'' = None"
  "istrstr ''login: '' ''pw:'' = None" "istrstr ''login: '' ''enter password'' = None"
  "istrstr [CHR ''l'', CHR ''o'', CHR ''g'', CHR ''i'', CHR ''n'', CHR '':'', CHR '' '', LF] ''password:'' = None" "istrstr [CHR ''l'', CHR ''o'', CHR ''g'', CHR ''i'', CHR ''n'', CHR '':'', CHR '' '', LF] ''pass:'' = None"
  "istrstr [CHR ''l'', CHR ''o'', CHR ''g'', CHR ''i'', CHR ''n'', CHR '':'', CHR '' '', LF] ''pw:'' = None" "istrstr [CHR ''l'', CHR ''o'', CHR ''g'', CHR ''i'', CHR ''n'', CHR '':'', CHR '' '', LF] ''enter password'' = None"
  by (simp_all add: istrstr_def tolower_def LF_def)

lemmas al_eval = autologin_try_prompt_def send_line_N0CALL cstr_login istrstr_login

lemma session_ex_fields:
  "s_tp session_ex = tp0" "s_rx_acc session_ex = []" "s_recent session_ex = []"
  "s_alp session_ex = alp_ex" "\<not> ab_enabled (s_alb session_ex)" "ab_stage (s_alb session_ex) = 0"
  "input_locked session_ex" "\<not> login_done_flag session_ex" "s_tx session_ex = []"
  "\<not> auto_help_sent session_ex"
  by (simp_all add: session_ex_def session_init_def blind_init_def alb_off_def alp_ex_def)

lemma login_scenario:
  "\<exists>s. main_loop libc_ex config_default session_ex
          [read_at (at_ms 0) ''login:'', read_at (at_ms 50) '' '', read_at (at_ms 100) [CR, LF]] = Inr s
       \<and> s_tx s = ''N0CALL'' @ [CR, LF] \<and> al_state (s_alp s) = 1 \<and> input_locked s"
proof -
  let ?L = libc_ex and ?cfg = config_default
  have cfg: "opt_cr_only ?cfg = False" "0 < unlock_quiet_ms ?cfg"
    by (simp_all add: config_default_def)
  let ?alp1 = "alp_ex\<lparr>al_state := 1\<rparr>"
  let ?tx1 = "[CHR ''N'', CHR ''0'', CHR ''C'', CHR ''A'', CHR ''L'', CHR ''L'', CR, LF]"
  have alp: "al_enabled alp_ex" "al_state alp_ex = 0" "al_enabled ?alp1" "al_state ?alp1 = 1"
    by (simp_all add: alp_ex_def)
  \<comment> \<open>first read\<close>
  have rd1: "rx_read tp0 [] ''login:'' = (tp0, [], ''login:'', [], ''login:'')"
    by (simp add: rx_eval)
  have rc1: "recent_update [] ''login:'' = ''login:''"
    by (simp add: recent_update_def RECENT_SIZE_def)
  have al1: "autologin_try_prompt False alp_ex (cstr ''login:'') [] = (?alp1, ?tx1)"
    by (simp add: al_eval alp_ex_def)
  define s1 where "s1 = session_ex\<lparr>s_tp := tp0, s_rx_acc := ''login:'',
      s_ui := render_out (foldl (process_line ?L) (s_ui session_ex) []),
      s_last_rx := at_ms 0, s_recent := ''login:'', s_alp := ?alp1, s_tx := ?tx1\<rparr>"
  have it1: "main_iter ?L ?cfg session_ex (read_at (at_ms 0) ''login:'') = Inr s1"
    unfolding s1_def
    by (rule main_iter_read_locked [where tp' = tp0 and replies = "[]" and out = "''login:''"])
       (simp_all add: session_ex_fields rd1 rc1 al1 cfg alp)
  have f1: "s_tp s1 = tp0" "s_rx_acc s1 = ''login:''" "s_recent s1 = ''login:''"
    "s_alp s1 = ?alp1" "\<not> ab_enabled (s_alb s1)" "ab_stage (s_alb s1) = 0"
    "input_locked s1" "\<not> login_done_flag s1" "s_tx s1 = ?tx1"
    by (simp_all add: s1_def session_ex_fields)
  \<comment> \<open>second read\<close>
  have rd2: "rx_read tp0 ''login:'' '' '' = (tp0, [], '' '', [], ''login: '')"
    by (simp add: rx_eval)
  have rc2: "recent_update ''login:'' '' '' = ''login: ''"
    by (simp add: recent_update_def RECENT_SIZE_def)
  have al2: "autologin_try_prompt False ?alp1 (cstr ''login: '') ?tx1 = (?alp1, ?tx1)"
    by (simp add: al_eval alp_ex_def)
  define s2 where "s2 = s1\<lparr>s_tp := tp0, s_rx_acc := ''login: '',
      s_ui := render_out (foldl (process_line ?L) (s_ui s1) []),
      s_last_rx := at_ms 50, s_recent := ''login: '', s_alp := ?alp1, s_tx := ?tx1\<rparr>"
  have it2: "main_iter ?L ?cfg s1 (read_at (at_ms 50) '' '') = Inr s2"
    unfolding s2_def
    by (rule main_iter_read_locked [where tp' = tp0 and replies = "[]" and out = "'' ''"])
       (simp_all add: f1 rd2 rc2 al2 cfg alp)
  have f2: "s_tp s2 = tp0" "s_rx_acc s2 = ''login: ''" "s_recent s2 = ''login: ''"
    "s_alp s2 = ?alp1" "\<not> ab_enabled (s_alb s2)" "ab_stage (s_alb s2) = 0"
    "input_locked s2" "\<not> login_done_flag s2" "s_tx s2 = ?tx1"
    by (simp_all add: s2_def f1)
  \<comment> \<open>third read\<close>
  have rd3: "rx_read tp0 ''login: '' [CR, LF] = (tp0, [], [LF], [''login: ''], [])"
    by (simp add: rx_eval)
  let ?r3 = "[CHR ''l'', CHR ''o'', CHR ''g'', CHR ''i'', CHR ''n'', CHR '':'', CHR '' '', LF]"
  have rc3: "recent_update ''login: '' [LF] = ?r3"
    by (simp add: recent_update_def RECENT_SIZE_def)
  have al3: "autologin_try_prompt False ?alp1 (cstr ?r3) ?tx1 = (?alp1, ?tx1)"
    using cstr_login(3) istrstr_login(6-9) by (simp add: autologin_try_prompt_def alp_ex_def)
  define s3 where "s3 = s2\<lparr>s_tp := tp0, s_rx_acc := [],
      s_ui := render_out (foldl (process_line ?L) (s_ui s2) [''login: '']),
      s_last_rx := at_ms 100, s_recent := ?r3, s_alp := ?alp1, s_tx := ?tx1\<rparr>"
  have it3: "main_iter ?L ?cfg s2 (read_at (at_ms 100) [CR, LF]) = Inr s3"
    unfolding s3_def
    by (rule main_iter_read_locked [where tp' = tp0 and replies = "[]" and out = "[LF]"])
       (simp_all add: f2 rd3 rc3 al3 cfg alp)
  have f3: "s_tx s3 = ?tx1" "al_state (s_alp s3) = 1" "input_locked s3"
    by (simp_all add: s3_def f2 alp)
  have "main_loop ?L ?cfg session_ex
          [read_at (at_ms 0) ''login:'', read_at (at_ms 50) '' '', read_at (at_ms 100) [CR, LF]] = Inr s3"
    by (simp add: it1 it2 it3)
  with f3 show ?thesis by simp
qed

lemma send_line_plain:
  assumes "NUL \<notin> set u" "IAC \<notin> set u"
  shows "send_line_utf8_telnet_safe False u tx = tx @ u @ [CR, LF]"
proof -
  have "write_telnet_safe v tx = tx @ v" if "IAC \<notin> set v" for v tx
    using that by (induction v arbitrary: tx) auto
  moreover have "cstr u = u"
    using assms(1) by (auto simp: cstr_def)
  ultimately show ?thesis
    using assms(2) by (simp add: send_line_utf8_telnet_safe_def send_eol_def)
qed

lemma marker_simps:
  "''login:'' \<noteq> []" "NUL \<notin> set ''login:''" "''user:'' \<noteq> []" "NUL \<notin> set ''user:''"
  "''callsign:'' \<noteq> []" "NUL \<notin> set ''callsign:''" "''password:'' \<noteq> []" "NUL \<notin> set ''password:''"
  "''pass:'' \<noteq> []" "NUL \<notin> set ''pass:''" "''pw:'' \<noteq> []" "NUL \<notin> set ''pw:''"
  "''enter password'' \<noteq> []" "NUL \<notin> set ''enter password''"
  by (simp_all add: NUL_def)

lemma cstr_no_nul: "NUL \<notin> set w \<Longrightarrow> cstr w = w"
  by (auto simp add: cstr_def)

lemma cstr_nul: "cstr (pre @ NUL # post) = cstr pre"
  by (induction pre) (simp_all add: cstr_def)

lemma recent_update_append:
  "length r + length out < RECENT_SIZE \<Longrightarrow> recent_update r out = r @ out"
  by (simp add: recent_update_def Let_def)

lemma list_update_last: "xs \<noteq> [] \<Longrightarrow> xs[length xs - 1 := v] = butlast xs @ [v]"
proof -
  assume "xs \<noteq> []"
  then obtain ys a where xs: "xs = ys @ [a]"
    by (metis append_butlast_last_id)
  show ?thesis unfolding xs by simp
qed

lemma recent_update_fill:
  assumes len: "length r + length out = RECENT_SIZE" and out: "out \<noteq> []"
  shows "recent_update r out = r @ butlast out @ [NUL]"
proof -
  have m: "\<not> length out > RECENT_SIZE" "\<not> length r + length out > RECENT_SIZE"
    using len by simp_all
  have "recent_update r out = (r @ out)[length (r @ out) - 1 := NUL]"
    unfolding recent_update_def Let_def using m len by simp
  also have "\<dots> = butlast (r @ out) @ [NUL]"
    using out by (intro list_update_last) simp
  finally show ?thesis
    using out by (simp add: butlast_append)
qed

lemma recent_update_full:
  assumes len: "length r = RECENT_SIZE" and out: "out \<noteq> []" and le: "length out \<le> RECENT_SIZE"
  shows "recent_update r out = drop (length out) r @ butlast out @ [NUL]"
proof -
  let ?w = "drop (length out) r @ out"
  have lw: "length ?w = RECENT_SIZE"
    using len le by simp
  have m: "\<not> length out > RECENT_SIZE" "length r + length out > RECENT_SIZE"
    "length r + length out - RECENT_SIZE = length out"
    using len le out by simp_all
  have "recent_update r out = ?w[length ?w - 1 := NUL]"
    unfolding recent_update_def Let_def using m len le lw by simp
  also have "\<dots> = butlast ?w @ [NUL]"
    using out by (intro list_update_last) simp
  finally show ?thesis
    using out by (simp add: butlast_append)
qed

lemma autologin_try_prompt_idle:
  assumes "al_enabled al" "al_state al = 0"
  shows "autologin_try_prompt cr al recent tx =
    (if ci_occurs ''login:'' recent \<or> ci_occurs ''user:'' recent \<or> ci_occurs ''callsign:'' recent
     then (al\<lparr>al_state := 1\<rparr>, send_line_utf8_telnet_safe cr (al_user al) tx)
     else (al, tx))"
  using assms
  by (simp add: autologin_try_prompt_def istrstr_iff [OF marker_simps(1,2), symmetric]
      istrstr_iff [OF marker_simps(3,4), symmetric] istrstr_iff [OF marker_simps(5,6), symmetric]
      del: not_None_eq)

lemma autologin_try_prompt_await:
  assumes "al_enabled al" "al_state al = 1"
  shows "autologin_try_prompt cr al recent tx =
    (if ci_occurs ''password:'' recent \<or> ci_occurs ''pass:'' recent \<or> ci_occurs ''pw:'' recent
        \<or> ci_occurs ''enter password'' recent
     then (al\<lparr>al_state := 2\<rparr>, send_line_utf8_telnet_safe cr (al_pass al) tx)
     else (al, tx))"
  using assms
  by (simp add: autologin_try_prompt_def istrstr_iff [OF marker_simps(7,8), symmetric]
      istrstr_iff [OF marker_simps(9,10), symmetric] istrstr_iff [OF marker_simps(11,12), symmetric]
      istrstr_iff [OF marker_simps(13,14), symmetric]
      del: not_None_eq)

lemma autologin_try_prompt_done:
  "2 \<le> al_state al \<Longrightarrow> autologin_try_prompt cr al recent tx = (al, tx)"
  by (simp add: autologin_try_prompt_def)

lemma rx_branch_prompt:
  assumes rd: "rx_read (s_tp s) (s_rx_acc s) inp = (tp', replies, out, ls, rx_acc')"
    and out: "out \<noteq> []"
    and en: "al_enabled (s_alp s)"
  shows "s_recent (rx_branch L cfg ev inp s) = recent_update (s_recent s) out"
    and "(s_alp (rx_branch L cfg ev inp s), s_tx (rx_branch L cfg ev inp s)) =
      autologin_try_prompt (opt_cr_only cfg) (s_alp s) (cstr (recent_update (s_recent s) out)) (s_tx s @ replies)"
proof -
  show "s_recent (rx_branch L cfg ev inp s) = recent_update (s_recent s) out"
    using out unfolding rx_branch_def rd by (simp add: Let_def split: prod.splits)
  show "(s_alp (rx_branch L cfg ev inp s), s_tx (rx_branch L cfg ev inp s)) =
      autologin_try_prompt (opt_cr_only cfg) (s_alp s) (cstr (recent_update (s_recent s) out)) (s_tx s @ replies)"
  proof (cases "al_state (s_alp s) < 2")
    case True
    then have c: "(al_enabled (s_alp s) \<and> al_state (s_alp s) < 2) = True" using en by simp
    show ?thesis
      using out unfolding rx_branch_def rd by (simp add: Let_def c split: prod.splits)
  next
    case False
    then have c: "(al_enabled (s_alp s) \<and> al_state (s_alp s) < 2) = False" by simp
    from False have "2 \<le> al_state (s_alp s)" by simp
    note d = autologin_try_prompt_done [OF this]
    show ?thesis
      using out unfolding rx_branch_def rd by (simp add: Let_def c d split: prod.splits)
  qed
qed

text \<open>
  Claim C7, for the window read as the code reads it. The matchers get the recent-text
  window as a C string: they search \<^term>\<open>cstr w\<close>, the bytes of the window \<open>w\<close> before its
  first NUL byte, which is all of it when it holds no NUL byte. With the prompt strategy
  enabled: in state 0 (idle) the user line is sent and the state becomes 1 exactly when
  \<^verbatim>\<open>login:\<close>, \<^verbatim>\<open>user:\<close> or \<^verbatim>\<open>callsign:\<close> occurs there, letter case apart; in state 1 the
  password line is sent and the state becomes 2 exactly when \<^verbatim>\<open>password:\<close>, \<^verbatim>\<open>pass:\<close>,
  \<^verbatim>\<open>pw:\<close> or \<^verbatim>\<open>enter password\<close> occurs there; from state 2 on nothing is sent. In the
  receive branch of the loop, a read that leaves the window below its 8192 bytes appends
  its bytes to the window, and the strategy runs on the C string of that window, after
  the replies of the Telnet filter. A line without NUL and IAC bytes is sent as it is,
  followed by CR LF. Reading \<^verbatim>\<open>"login:"\<close>, \<^verbatim>\<open>" "\<close> and \<^verbatim>\<open>"\r\n"\<close> in three iterations with
  the user \<^verbatim>\<open>N0CALL\<close> sends exactly \<^verbatim>\<open>"N0CALL\r\n"\<close> and leaves the state 1.
\<close>

theorem prompt_autologin:
  assumes en: "al_enabled al"
  shows "(al_state al = 0 \<longrightarrow>
            autologin_try_prompt cr al (cstr w) tx =
              (if ci_occurs ''login:'' (cstr w) \<or> ci_occurs ''user:'' (cstr w) \<or> ci_occurs ''callsign:'' (cstr w)
               then (al\<lparr>al_state := 1\<rparr>, send_line_utf8_telnet_safe cr (al_user al) tx)
               else (al, tx)))
    \<and> (al_state al = 1 \<longrightarrow>
            autologin_try_prompt cr al (cstr w) tx =
              (if ci_occurs ''password:'' (cstr w) \<or> ci_occurs ''pass:'' (cstr w) \<or> ci_occurs ''pw:'' (cstr w)
                  \<or> ci_occurs ''enter password'' (cstr w)
               then (al\<lparr>al_state := 2\<rparr>, send_line_utf8_telnet_safe cr (al_pass al) tx)
               else (al, tx)))
    \<and> (2 \<le> al_state al \<longrightarrow> autologin_try_prompt cr al (cstr w) tx = (al, tx))
    \<and> (s_alp s = al \<and> rx_read (s_tp s) (s_rx_acc s) inp = (tp', replies, out, ls, rx_acc') \<and> out \<noteq> []
          \<and> length (s_recent s) + length out < RECENT_SIZE \<longrightarrow>
            s_recent (rx_branch L cfg ev inp s) = s_recent s @ out
            \<and> (s_alp (rx_branch L cfg ev inp s), s_tx (rx_branch L cfg ev inp s)) =
                autologin_try_prompt (opt_cr_only cfg) al (cstr (s_recent s @ out)) (s_tx s @ replies))
    \<and> (NUL \<notin> set v \<longrightarrow> cstr v = v)
    \<and> (NUL \<notin> set u \<and> IAC \<notin> set u \<longrightarrow> send_line_utf8_telnet_safe False u tx = tx @ u @ [CR, LF])
    \<and> (\<exists>s. main_loop libc_ex config_default session_ex
              [read_at (at_ms 0) ''login:'', read_at (at_ms 50) '' '', read_at (at_ms 100) [CR, LF]] = Inr s
            \<and> s_tx s = ''N0CALL'' @ [CR, LF] \<and> al_state (s_alp s) = 1)"
proof -
  have idle: "al_state al = 0 \<longrightarrow>
            autologin_try_prompt cr al (cstr w) tx =
              (if ci_occurs ''login:'' (cstr w) \<or> ci_occurs ''user:'' (cstr w) \<or> ci_occurs ''callsign:'' (cstr w)
               then (al\<lparr>al_state := 1\<rparr>, send_line_utf8_telnet_safe cr (al_user al) tx)
               else (al, tx))"
    using autologin_try_prompt_idle [OF en] by blast
  have await: "al_state al = 1 \<longrightarrow>
            autologin_try_prompt cr al (cstr w) tx =
              (if ci_occurs ''password:'' (cstr w) \<or> ci_occurs ''pass:'' (cstr w) \<or> ci_occurs ''pw:'' (cstr w)
                  \<or> ci_occurs ''enter password'' (cstr w)
               then (al\<lparr>al_state := 2\<rparr>, send_line_utf8_telnet_safe cr (al_pass al) tx)
               else (al, tx))"
    using autologin_try_prompt_await [OF en] by blast
  have finished: "2 \<le> al_state al \<longrightarrow> autologin_try_prompt cr al (cstr w) tx = (al, tx)"
    using autologin_try_prompt_done by blast
  have branch: "s_alp s = al \<and> rx_read (s_tp s) (s_rx_acc s) inp = (tp', replies, out, ls, rx_acc') \<and> out \<noteq> []
          \<and> length (s_recent s) + length out < RECENT_SIZE \<longrightarrow>
            s_recent (rx_branch L cfg ev inp s) = s_recent s @ out
            \<and> (s_alp (rx_branch L cfg ev inp s), s_tx (rx_branch L cfg ev inp s)) =
                autologin_try_prompt (opt_cr_only cfg) al (cstr (s_recent s @ out)) (s_tx s @ replies)"
  proof (intro impI, elim conjE)
    assume a: "s_alp s = al" "rx_read (s_tp s) (s_rx_acc s) inp = (tp', replies, out, ls, rx_acc')"
      "out \<noteq> []" "length (s_recent s) + length out < RECENT_SIZE"
    from a(1) en have e: "al_enabled (s_alp s)" by simp
    from rx_branch_prompt [OF a(2,3) e, of L cfg ev] recent_update_append [OF a(4)] a(1)
    show "s_recent (rx_branch L cfg ev inp s) = s_recent s @ out
            \<and> (s_alp (rx_branch L cfg ev inp s), s_tx (rx_branch L cfg ev inp s)) =
                autologin_try_prompt (opt_cr_only cfg) al (cstr (s_recent s @ out)) (s_tx s @ replies)"
      by simp
  qed
  have whole: "NUL \<notin> set v \<longrightarrow> cstr v = v"
    using cstr_no_nul by blast
  have line: "NUL \<notin> set u \<and> IAC \<notin> set u \<longrightarrow> send_line_utf8_telnet_safe False u tx = tx @ u @ [CR, LF]"
    using send_line_plain [of u tx] by simp
  from login_scenario have scenario:
    "\<exists>s. main_loop libc_ex config_default session_ex
              [read_at (at_ms 0) ''login:'', read_at (at_ms 50) '' '', read_at (at_ms 100) [CR, LF]] = Inr s
            \<and> s_tx s = ''N0CALL'' @ [CR, LF] \<and> al_state (s_alp s) = 1"
    by blast
  from idle await finished branch whole line scenario show ?thesis by (intro conjI)
qed

theorem prompt_autologin_witness:
  "s_recent (rx_branch libc_ex config_default (read_at (at_ms 0) ''Login:'') ''Login:'' session_ex) = ''Login:''
   \<and> s_tx (rx_branch libc_ex config_default (read_at (at_ms 0) ''Login:'') ''Login:'' session_ex)
       = ''N0CALL'' @ [CR, LF]
   \<and> al_state (s_alp (rx_branch libc_ex config_default (read_at (at_ms 0) ''Login:'') ''Login:'' session_ex)) = 1
   \<and> autologin_try_prompt False (alp_ex\<lparr>al_state := 1\<rparr>) (cstr ''Enter Password'') []
       = (alp_ex\<lparr>al_state := 2\<rparr>, ''SECRET'' @ [CR, LF])
   \<and> autologin_try_prompt False (alp_ex\<lparr>al_state := 2\<rparr>) (cstr ''login:'') [] = (alp_ex\<lparr>al_state := 2\<rparr>, [])"
proof -
  let ?s = "rx_branch libc_ex config_default (read_at (at_ms 0) ''Login:'') ''Login:'' session_ex"
  have "''Login:'' = [] @ ''Login:'' @ [] \<and> map tolower ''Login:'' = map tolower ''login:''"
    by (simp add: tolower_def)
  then have occ1: "ci_occurs ''login:'' ''Login:''"
    unfolding ci_occurs_def by blast
  have "''Enter Password'' = [] @ ''Enter Password'' @ []
      \<and> map tolower ''Enter Password'' = map tolower ''enter password''"
    by (simp add: tolower_def)
  then have occ2: "ci_occurs ''enter password'' ''Enter Password''"
    unfolding ci_occurs_def by blast
  have f: "al_enabled alp_ex" "al_state alp_ex = 0" "al_user alp_ex = ''N0CALL''" "al_pass alp_ex = ''SECRET''"
    "NUL \<notin> set ''N0CALL''" "IAC \<notin> set ''N0CALL''" "NUL \<notin> set ''SECRET''" "IAC \<notin> set ''SECRET''"
    "NUL \<notin> set ''Login:''" "NUL \<notin> set ''Enter Password''" "NUL \<notin> set ''login:''"
    by (simp_all add: alp_ex_def NUL_def IAC_def)
  have en: "al_enabled (alp_ex\<lparr>al_state := k\<rparr>)" for k
    by (simp add: alp_ex_def)
  have rd: "rx_read tp0 [] ''Login:'' = (tp0, [], ''Login:'', [], ''Login:'')"
    by (simp add: rx_eval)
  have cfg: "opt_cr_only config_default = False"
    by (simp add: config_default_def)
  have len: "length (''Login:'' :: string) < RECENT_SIZE"
    by (simp add: RECENT_SIZE_def)
  note a = prompt_autologin [OF f(1), where cr = False and w = "''Login:''" and tx = "[]"
      and s = session_ex and inp = "''Login:''" and tp' = tp0 and replies = "[]" and out = "''Login:''"
      and ls = "[]" and rx_acc' = "''Login:''" and L = libc_ex and cfg = config_default
      and ev = "read_at (at_ms 0) ''Login:''" and v = "''Login:''" and u = "''N0CALL''"]
  note b = prompt_autologin [OF en, of 1 False "''Enter Password''" "[]" _ _ _ _ _ _ _ _ _ _ "''Enter Password''" "''SECRET''"]
  note c = prompt_autologin [OF en, of 2 False "''login:''" "[]" _ _ _ _ _ _ _ _ _ _ "''login:''" "[]"]
  from a f(9) have c1: "cstr ''Login:'' = ''Login:''" by blast
  from a f(2) c1 occ1 f(3)
  have t1: "autologin_try_prompt False alp_ex ''Login:'' [] = (alp_ex\<lparr>al_state := 1\<rparr>, send_line_utf8_telnet_safe False ''N0CALL'' [])"
    by simp
  from a f(5,6) have l1: "send_line_utf8_telnet_safe False ''N0CALL'' [] = ''N0CALL'' @ [CR, LF]"
    by simp
  from a rd len
  have br: "s_recent ?s = ''Login:'' \<and> (s_alp ?s, s_tx ?s) = autologin_try_prompt False alp_ex (cstr ''Login:'') []"
    by (simp add: session_ex_fields cfg)
  from br t1 l1 c1 have 1: "s_recent ?s = ''Login:''" "s_tx ?s = ''N0CALL'' @ [CR, LF]" "al_state (s_alp ?s) = 1"
    by simp_all
  from b f(10) have c2: "cstr ''Enter Password'' = ''Enter Password''" by blast
  from b occ2 f c2 have 2: "autologin_try_prompt False (alp_ex\<lparr>al_state := 1\<rparr>) (cstr ''Enter Password'') []
       = (alp_ex\<lparr>al_state := 2\<rparr>, ''SECRET'' @ [CR, LF])"
    by simp
  from c have 3: "autologin_try_prompt False (alp_ex\<lparr>al_state := 2\<rparr>) (cstr ''login:'') [] = (alp_ex\<lparr>al_state := 2\<rparr>, [])"
    by simp
  from 1 2 3 show ?thesis by (intro conjI)
qed

text \<open>
  For the window as a sequence of bytes the claim fails: a NUL byte received in front of
  \<^verbatim>\<open>login:\<close> ends the C string. After that one read the window holds \<^verbatim>\<open>login:\<close>, the
  state is still 0 and nothing has been sent.
\<close>

theorem prompt_autologin_counterexample:
  "\<not> isl (main_loop libc_ex config_default session_ex [read_at (at_ms 0) (NUL # ''login:'')])
   \<and> s_recent (projr (main_loop libc_ex config_default session_ex [read_at (at_ms 0) (NUL # ''login:'')]))
       = NUL # ''login:''
   \<and> ci_occurs ''login:'' (NUL # ''login:'')
   \<and> al_state (s_alp session_ex) = 0
   \<and> al_state (s_alp (projr (main_loop libc_ex config_default session_ex [read_at (at_ms 0) (NUL # ''login:'')]))) = 0
   \<and> s_tx (projr (main_loop libc_ex config_default session_ex [read_at (at_ms 0) (NUL # ''login:'')])) = []"
proof -
  let ?L = libc_ex and ?cfg = config_default
  let ?w = "NUL # ''login:''"
  have cfg: "opt_cr_only ?cfg = False" "0 < unlock_quiet_ms ?cfg"
    by (simp_all add: config_default_def)
  have alp: "al_enabled alp_ex" "al_state alp_ex = 0"
    by (simp_all add: alp_ex_def)
  have rd: "rx_read tp0 [] ?w = (tp0, [], ?w, [], ?w)"
    by (simp add: rx_eval)
  have rc: "recent_update [] ?w = ?w"
    by (simp add: recent_update_def RECENT_SIZE_def)
  have cs: "cstr ?w = []"
    by (simp add: cstr_def)
  have al: "autologin_try_prompt False alp_ex (cstr ?w) [] = (alp_ex, [])"
    unfolding cs using alp by (simp add: autologin_try_prompt_def istrstr_def)
  define s1 where "s1 = session_ex\<lparr>s_tp := tp0, s_rx_acc := ?w,
      s_ui := render_out (foldl (process_line ?L) (s_ui session_ex) []),
      s_last_rx := at_ms 0, s_recent := ?w, s_alp := alp_ex, s_tx := []\<rparr>"
  have it: "main_iter ?L ?cfg session_ex (read_at (at_ms 0) ?w) = Inr s1"
    unfolding s1_def
    by (rule main_iter_read_locked [where tp' = tp0 and replies = "[]" and out = ?w])
       (simp_all add: session_ex_fields rd rc al cfg alp)
  have run: "main_loop ?L ?cfg session_ex [read_at (at_ms 0) ?w] = Inr s1"
    by (simp add: it)
  have f: "s_recent s1 = ?w" "al_state (s_alp s1) = 0" "s_tx s1 = []"
    by (simp_all add: s1_def alp)
  have "?w = [NUL] @ ''login:'' @ [] \<and> map tolower ''login:'' = map tolower ''login:''"
    by simp
  then have occ: "ci_occurs ''login:'' ?w"
    unfolding ci_occurs_def by blast
  have a0: "al_state (s_alp session_ex) = 0"
    by (simp add: session_ex_fields alp)
  show ?thesis
    unfolding run using f occ a0 by simp
qed

text \<open>A read of plain bytes: no Telnet command, no line end.\<close>

lemma telnet_loop_plain:
  "tp_state tp = 0 \<Longrightarrow> IAC \<notin> set inp \<Longrightarrow> length out + length inp \<le> cap
    \<Longrightarrow> telnet_loop cap (tp, out, tx) inp = (tp, out @ inp, tx)"
  by (induction inp arbitrary: out) (auto simp add: telnet_byte_def put_def)

lemma normalize_loop_plain:
  "CR \<notin> set inp \<Longrightarrow> LF \<notin> set inp \<Longrightarrow> length out + length inp \<le> cap
    \<Longrightarrow> normalize_loop cap out inp = out @ inp"
  by (induction inp arbitrary: out) (auto simp add: put_def)

lemma rx_read_plain:
  assumes "tp_state tp = 0" "IAC \<notin> set inp" "CR \<notin> set inp" "LF \<notin> set inp" "LF \<notin> set acc"
    and "inp \<noteq> []" "length inp \<le> TMP_CAP"
  shows "rx_read tp acc inp = (tp, [], inp, [], acc @ inp)"
proof -
  have 1: "telnet_filter_and_reply tp inp TMP_CAP = (tp, inp, [])"
    using assms telnet_loop_plain [of tp inp "[]" TMP_CAP "[]"]
    by (simp add: telnet_filter_and_reply_def)
  have 2: "normalize_incoming inp OUT_CAP = inp"
    using assms normalize_loop_plain [of inp "[]" OUT_CAP]
    by (simp add: normalize_incoming_def OUT_CAP_def TMP_CAP_def)
  have 3: "rx_feed acc inp = ([], acc @ inp)"
    using assms by (simp add: rx_feed_def rx_accumulate_split_lf split_lf_no_lf)
  show ?thesis
    by (simp add: rx_read_def 1 2 3)
qed

lemma ci_occurs_hd:
  assumes "ci_occurs marker hay" "marker \<noteq> []"
  shows "tolower (hd marker) \<in> tolower ` set hay"
proof -
  from assms(1) obtain pre m post where h: "hay = pre @ m @ post" and m: "map tolower m = map tolower marker"
    unfolding ci_occurs_def by blast
  from m assms(2) have ne: "m \<noteq> []" by auto
  have "hd (map tolower m) = hd (map tolower marker)"
    using m by simp
  then have 1: "tolower (hd m) = tolower (hd marker)"
    using ne assms(2) by (simp add: hd_map)
  have 2: "hd m \<in> set hay"
    using ne h by simp
  from 1 2 show ?thesis by (metis imageI)
qed

lemma no_marker_in_xs:
  assumes "set hay \<subseteq> {CHR ''x''}"
  shows "autologin_try_prompt cr alp_ex hay tx = (alp_ex, tx)"
proof -
  have t: "tolower ` set hay \<subseteq> {tolower CHR ''x''}"
    using assms by blast
  have d: "tolower CHR ''l'' \<noteq> tolower CHR ''x''" "tolower CHR ''u'' \<noteq> tolower CHR ''x''"
    "tolower CHR ''c'' \<noteq> tolower CHR ''x''"
    by (simp_all add: tolower_def)
  have "\<not> ci_occurs ''login:'' hay"
    using ci_occurs_hd [of "''login:''" hay] t d(1) by auto
  moreover have "\<not> ci_occurs ''user:'' hay"
    using ci_occurs_hd [of "''user:''" hay] t d(2) by auto
  moreover have "\<not> ci_occurs ''callsign:'' hay"
    using ci_occurs_hd [of "''callsign:''" hay] t d(3) by auto
  moreover have "al_enabled alp_ex" "al_state alp_ex = 0"
    by (simp_all add: alp_ex_def)
  ultimately show ?thesis
    by (simp add: autologin_try_prompt_idle)
qed

text \<open>
  A full window is another matter. The terminating NUL of line 602 then goes to
  \<^verbatim>\<open>recent[sizeof(recent)-1]\<close>, over the last byte of the window, and the next update
  shifts it into the window, in front of the bytes it appends. After two reads of 4096
  bytes the text \<^verbatim>\<open>xx login: yy\<close> is stored behind that NUL: the matchers do not see it,
  nothing is sent.
\<close>

lemma window_full_hides_tail:
  "\<exists>s. main_loop libc_ex config_default session_ex
          [read_at (at_ms 0) (replicate 4096 CHR ''x''), read_at (at_ms 10) (replicate 4096 CHR ''x''),
           read_at (at_ms 20) ''xx login: yy''] = Inr s
       \<and> s_recent s = replicate 8179 CHR ''x'' @ NUL # ''xx login: y'' @ [NUL]
       \<and> al_state (s_alp s) = 0 \<and> s_tx s = []"
proof -
  let ?L = libc_ex and ?cfg = config_default
  define X where "X = replicate 4096 CHR ''x''"
  define T where "T = ''xx login: yy''"
  have X: "length X = 4096" "set X \<subseteq> {CHR ''x''}" "X \<noteq> []"
    "IAC \<notin> set X" "CR \<notin> set X" "LF \<notin> set X" "NUL \<notin> set X"
    by (auto simp add: X_def IAC_def CR_def LF_def NUL_def)
  have T: "length T = 12" "T \<noteq> []" "IAC \<notin> set T" "CR \<notin> set T" "LF \<notin> set T"
    "butlast T = ''xx login: y''"
    by (simp_all add: T_def IAC_def CR_def LF_def)
  have cfg: "opt_cr_only ?cfg = False" "0 < unlock_quiet_ms ?cfg"
    by (simp_all add: config_default_def)
  have alp: "al_enabled alp_ex" "al_state alp_ex = 0" "al_state alp_ex \<noteq> 2"
    by (simp_all add: alp_ex_def)
  have tp: "tp_state tp0 = 0"
    by (simp add: tp0_def)
  \<comment> \<open>first read: the window is half full\<close>
  have rd1: "rx_read tp0 [] X = (tp0, [], X, [], X)"
    using rx_read_plain [OF tp X(4,5,6), of "[]"] X(1,3) by (simp add: TMP_CAP_def)
  have rc1: "recent_update [] X = X"
    using recent_update_append [of "[]" X] X(1) by (simp add: RECENT_SIZE_def)
  have al1: "autologin_try_prompt False alp_ex (cstr X) [] = (alp_ex, [])"
    using no_marker_in_xs [OF X(2)] cstr_no_nul [OF X(7)] by simp
  define s1 where "s1 = session_ex\<lparr>s_tp := tp0, s_rx_acc := X,
      s_ui := render_out (foldl (process_line ?L) (s_ui session_ex) []),
      s_last_rx := at_ms 0, s_recent := X, s_alp := alp_ex, s_tx := []\<rparr>"
  have it1: "main_iter ?L ?cfg session_ex (read_at (at_ms 0) X) = Inr s1"
    unfolding s1_def
    by (rule main_iter_read_locked [where tp' = tp0 and replies = "[]" and out = X])
       (simp_all add: session_ex_fields rd1 rc1 al1 cfg alp X)
  have f1: "s_tp s1 = tp0" "s_rx_acc s1 = X" "s_recent s1 = X"
    "s_alp s1 = alp_ex" "\<not> ab_enabled (s_alb s1)" "ab_stage (s_alb s1) = 0"
    "input_locked s1" "\<not> login_done_flag s1" "s_tx s1 = []"
    by (simp_all add: s1_def session_ex_fields)
  \<comment> \<open>second read: the window is full, the NUL goes over its last byte\<close>
  define W2 where "W2 = X @ butlast X @ [NUL]"
  have W2: "length W2 = RECENT_SIZE" "cstr W2 = X @ butlast X" "set (X @ butlast X) \<subseteq> {CHR ''x''}"
    using X(1,2,7) cstr_nul [of "X @ butlast X" "[]"] cstr_no_nul [of "X @ butlast X"]
    by (auto simp add: W2_def RECENT_SIZE_def dest: in_set_butlastD)
  have rd2: "rx_read tp0 X X = (tp0, [], X, [], X @ X)"
    using rx_read_plain [OF tp X(4,5,6) X(6)] X(1,3) by (simp add: TMP_CAP_def)
  have rc2: "recent_update X X = W2"
    unfolding W2_def using recent_update_fill [of X X] X(1,3) by (simp add: RECENT_SIZE_def)
  have al2: "autologin_try_prompt False alp_ex (cstr W2) [] = (alp_ex, [])"
    using no_marker_in_xs [OF W2(3)] W2(2) by simp
  define s2 where "s2 = s1\<lparr>s_tp := tp0, s_rx_acc := X @ X,
      s_ui := render_out (foldl (process_line ?L) (s_ui s1) []),
      s_last_rx := at_ms 10, s_recent := W2, s_alp := alp_ex, s_tx := []\<rparr>"
  have it2: "main_iter ?L ?cfg s1 (read_at (at_ms 10) X) = Inr s2"
    unfolding s2_def
    by (rule main_iter_read_locked [where tp' = tp0 and replies = "[]" and out = X])
       (simp_all add: f1 rd2 rc2 al2 cfg alp X)
  have f2: "s_tp s2 = tp0" "s_rx_acc s2 = X @ X" "s_recent s2 = W2"
    "s_alp s2 = alp_ex" "\<not> ab_enabled (s_alb s2)" "ab_stage (s_alb s2) = 0"
    "input_locked s2" "\<not> login_done_flag s2" "s_tx s2 = []"
    by (simp_all add: s2_def f1)
  \<comment> \<open>third read: the new text lies behind that NUL\<close>
  define P where "P = drop 12 X @ butlast X"
  define W3 where "W3 = P @ NUL # ''xx login: y'' @ [NUL]"
  have P: "set P \<subseteq> {CHR ''x''}" "NUL \<notin> set P" "P = replicate 8179 CHR ''x''"
    using X(2,7) by (auto simp add: P_def X_def butlast_conv_take replicate_add [symmetric]
        dest: in_set_dropD in_set_butlastD)
  have W3: "cstr W3 = P"
    using cstr_nul [of P "''xx login: y'' @ [NUL]"] cstr_no_nul [OF P(2)] by (simp add: W3_def)
  have rd3: "rx_read tp0 (X @ X) T = (tp0, [], T, [], (X @ X) @ T)"
    using rx_read_plain [OF tp T(3,4,5), of "X @ X"] X(6) T(1,2) by (simp add: TMP_CAP_def)
  have rc3: "recent_update W2 T = W3"
    using recent_update_full [OF W2(1) T(2)] T(1,6) X(1)
    by (simp add: RECENT_SIZE_def W3_def W2_def P_def)
  have al3: "autologin_try_prompt False alp_ex (cstr W3) [] = (alp_ex, [])"
    using no_marker_in_xs [OF P(1)] W3 by simp
  define s3 where "s3 = s2\<lparr>s_tp := tp0, s_rx_acc := (X @ X) @ T,
      s_ui := render_out (foldl (process_line ?L) (s_ui s2) []),
      s_last_rx := at_ms 20, s_recent := W3, s_alp := alp_ex, s_tx := []\<rparr>"
  have it3: "main_iter ?L ?cfg s2 (read_at (at_ms 20) T) = Inr s3"
    unfolding s3_def
    by (rule main_iter_read_locked [where tp' = tp0 and replies = "[]" and out = T])
       (simp_all add: f2 rd3 rc3 al3 cfg alp T)
  have f3: "s_recent s3 = W3" "al_state (s_alp s3) = 0" "s_tx s3 = []"
    by (simp_all add: s3_def alp)
  have "main_loop ?L ?cfg session_ex [read_at (at_ms 0) X, read_at (at_ms 10) X, read_at (at_ms 20) T] = Inr s3"
    by (simp add: it1 it2 it3)
  with f3 show ?thesis
    unfolding W3_def P(3) unfolding X_def T_def by blast
qed

section \<open>The input lock\<close>

lemma main_loop_idle_locked:
  assumes "\<not> ab_enabled (s_alb s)" "\<not> login_done_flag s" "ab_stage (s_alb s) \<noteq> 2" "input_locked s"
  shows "main_loop L cfg s (map idle_at ts) = Inr s"
  by (induction ts) (simp_all add: main_iter_idle_locked [OF assms])

lemma prompt_like_gt: "prompt_like (cstr ''> '')"
  by (simp add: prompt_like_def cstr_def NUL_def)

lemma istrstr_gt:
  "istrstr ''> '' ''login:'' = None" "istrstr ''> '' ''user:'' = None" "istrstr ''> '' ''callsign:'' = None"
  "cstr ''> '' = ''> ''"
  by (simp_all add: istrstr_def tolower_def cstr_def NUL_def)

text \<open>
  Claim C4 fails on the code; this is the run that shows it. The session has prompt
  autologin enabled, so the input is locked, and the default quiet period of 300 ms. The
  peer sends \<^verbatim>\<open>"> "\<close> at time 0 and then nothing. After any number of later wakes of the
  loop, at any clock readings, without socket or keyboard activity, the input is still
  locked, although the recent text matches a marker and the last byte arrived at time 0;
  10 s later, for one, the quiet period has long elapsed. The quiet-period rule stands
  inside the receive branch, behind the update of \<^verbatim>\<open>last_rx\<close>.
\<close>

theorem quiet_unlock_not_rechecked:
  "(\<exists>s. main_loop libc_ex config_default session_ex (read_at (at_ms 0) ''> '' # map idle_at ts) = Inr s
        \<and> input_locked s \<and> prompt_like (cstr (s_recent s)) \<and> s_last_rx s = at_ms 0)
   \<and> unlock_quiet_ms config_default = 300
   \<and> since_ms (at_ms 0) (at_ms 10000) = 10000"
proof -
  let ?L = libc_ex and ?cfg = config_default
  have cfg: "opt_cr_only ?cfg = False" "0 < unlock_quiet_ms ?cfg" "unlock_quiet_ms ?cfg = 300"
    by (simp_all add: config_default_def)
  have alp: "al_enabled alp_ex" "al_state alp_ex = 0"
    by (simp_all add: alp_ex_def)
  have rd: "rx_read tp0 [] ''> '' = (tp0, [], ''> '', [], ''> '')"
    by (simp add: rx_eval)
  have rc: "recent_update [] ''> '' = ''> ''"
    by (simp add: recent_update_def RECENT_SIZE_def)
  have al: "autologin_try_prompt False alp_ex (cstr ''> '') [] = (alp_ex, [])"
    using alp by (simp add: autologin_try_prompt_def istrstr_gt)
  define s1 where "s1 = session_ex\<lparr>s_tp := tp0, s_rx_acc := ''> '',
      s_ui := render_out (foldl (process_line ?L) (s_ui session_ex) []),
      s_last_rx := at_ms 0, s_recent := ''> '', s_alp := alp_ex, s_tx := []\<rparr>"
  have it: "main_iter ?L ?cfg session_ex (read_at (at_ms 0) ''> '') = Inr s1"
    unfolding s1_def
    by (rule main_iter_read_locked [where tp' = tp0 and replies = "[]" and out = "''> ''"])
       (simp_all add: session_ex_fields rd rc al cfg alp)
  have f: "\<not> ab_enabled (s_alb s1)" "\<not> login_done_flag s1" "ab_stage (s_alb s1) \<noteq> 2" "input_locked s1"
    "s_recent s1 = ''> ''" "s_last_rx s1 = at_ms 0"
    by (simp_all add: s1_def session_ex_fields)
  have "main_loop ?L ?cfg session_ex (read_at (at_ms 0) ''> '' # map idle_at ts) = Inr s1"
    using main_loop_idle_locked [OF f(1-4), of ?L ?cfg ts] by (simp add: it)
  moreover have "since_ms (at_ms 0) (at_ms 10000) = 10000"
    by (simp add: since_ms_def at_ms_def signed_divide_int_def)
  ultimately show ?thesis
    using f prompt_like_gt cfg by simp
qed

theorem quiet_unlock_not_rechecked_witness:
  "\<exists>s. main_loop libc_ex config_default session_ex
         [read_at (at_ms 0) ''> '', idle_at (at_ms 50), idle_at (at_ms 10000)] = Inr s
       \<and> input_locked s \<and> prompt_like (cstr (s_recent s)) \<and> s_last_rx s = at_ms 0"
  using quiet_unlock_not_rechecked [of "[at_ms 50, at_ms 10000]"] by simp

lemma rx_branch_lock: "input_locked (rx_branch L cfg ev inp s) \<Longrightarrow> input_locked s"
  by (auto simp: rx_branch_def Let_def split: prod.splits if_splits)

lemma delay_unlock_lock: "input_locked (delay_unlock cfg ev s) \<Longrightarrow> input_locked s"
  by (auto simp: delay_unlock_def Let_def split: if_splits)

lemma auto_help_lock: "input_locked (auto_help cfg s) = input_locked s"
  by (simp add: auto_help_def)

lemma keyboard_lock: "keyboard L cfg ev wch s = Inr s' \<Longrightarrow> input_locked s' = input_locked s"
  by (auto simp: keyboard_def ctrl_z_def submit_line_def Let_def split: if_splits prod.splits)

lemma main_iter_lock:
  assumes "main_iter L cfg s ev = Inr s'" "input_locked s'"
  shows "input_locked s"
proof -
  define s1 where "s1 = (case ev_resize ev of
                 None \<Rightarrow> s
               | Some (r, c) \<Rightarrow> s\<lparr>s_ui := resize (lc_wcwidth L) (lc_iswpunct L) r c (s_ui s)\<rparr>)"
  have l1: "input_locked s1 = input_locked s"
    by (simp add: s1_def split: option.splits)
  obtain alb sent where bs: "blind_step (opt_cr_only cfg) (s_alb s1) (ev_t_blind ev) = (alb, sent)"
    by (cases "blind_step (opt_cr_only cfg) (s_alb s1) (ev_t_blind ev)") auto
  define s2 where "s2 = s1\<lparr>s_alb := alb, s_tx := s_tx s1 @ sent\<rparr>"
  have l2: "input_locked s2 = input_locked s"
    by (simp add: s2_def l1)
  let ?rx = "case ev_rx ev of Rx_None \<Rightarrow> Inr s2 | Rx_Err \<Rightarrow> Inl EXIT_FAILURE
          | Rx_Read inp \<Rightarrow> if inp = [] then Inl EXIT_SUCCESS else Inr (rx_branch L cfg ev inp s2)"
  let ?kb = "\<lambda>s3. case ev_key ev of None \<Rightarrow> Inr (auto_help cfg (delay_unlock cfg ev s3))
              | Some wch \<Rightarrow> keyboard L cfg ev wch (auto_help cfg (delay_unlock cfg ev s3))"
  have mi: "main_iter L cfg s ev =
      (if ev_select_err ev then Inl EXIT_FAILURE
       else (case ?rx of Inl e \<Rightarrow> Inl e | Inr s3 \<Rightarrow> ?kb s3))"
    unfolding s2_def by (simp add: main_iter_def Let_def s1_def [symmetric] bs cong: sum.case_cong)
  from assms(1) obtain s3 where rx: "?rx = Inr s3" and kb: "?kb s3 = Inr s'"
    unfolding mi by (cases ?rx) (auto split: if_splits)
  from kb assms(2) have "input_locked (auto_help cfg (delay_unlock cfg ev s3))"
    by (auto split: option.splits simp: keyboard_lock)
  then have "input_locked s3"
    by (simp add: auto_help_lock delay_unlock_lock)
  with rx have "input_locked s2"
    by (auto split: rx_event.splits if_splits dest: rx_branch_lock)
  with l2 show ?thesis by simp
qed

lemma main_loop_lock:
  "main_loop L cfg s evs = Inr s' \<Longrightarrow> input_locked s' \<Longrightarrow> input_locked s"
proof (induction evs arbitrary: s)
  case Nil
  then show ?case by simp
next
  case (Cons ev evs)
  then obtain s1 where step: "main_iter L cfg s ev = Inr s1" and rest: "main_loop L cfg s1 evs = Inr s'"
    by (auto split: sum.splits)
  from Cons.IH [OF rest Cons.prems(2)] main_iter_lock [OF step] show ?case by simp
qed

lemma main_loop_append:
  "main_loop L cfg s (evs1 @ evs2) =
    (case main_loop L cfg s evs1 of Inl e \<Rightarrow> Inl e | Inr s1 \<Rightarrow> main_loop L cfg s1 evs2)"
  by (induction evs1 arbitrary: s) (simp_all split: sum.splits)

text \<open>
  Claim C10. The lock is set once, when the session starts, to whether an autologin
  strategy is enabled. Over any iterations of the loop that do not end the program, an
  unlocked input stays unlocked: from any state, and so from the moment in a run at
  which the lock was released.
\<close>

theorem input_lock_monotone:
  "input_locked (session_init alp alb r c t_rx t0) = (al_enabled alp \<or> ab_enabled alb)
   \<and> (main_loop L cfg s evs = Inr s' \<and> \<not> input_locked s \<longrightarrow> \<not> input_locked s')
   \<and> (main_loop L cfg s evs1 = Inr s1 \<and> \<not> input_locked s1
        \<and> main_loop L cfg s (evs1 @ evs2) = Inr s2 \<longrightarrow> \<not> input_locked s2)"
proof -
  have a: "input_locked (session_init alp alb r c t_rx t0) = (al_enabled alp \<or> ab_enabled alb)"
    by (simp add: session_init_def)
  have b: "main_loop L cfg s evs = Inr s' \<and> \<not> input_locked s \<longrightarrow> \<not> input_locked s'"
    using main_loop_lock [of L cfg s evs s'] by blast
  have c: "main_loop L cfg s evs1 = Inr s1 \<and> \<not> input_locked s1
        \<and> main_loop L cfg s (evs1 @ evs2) = Inr s2 \<longrightarrow> \<not> input_locked s2"
    using main_loop_lock [of L cfg s1 evs2 s2] by (auto simp: main_loop_append)
  from a b c show ?thesis by (intro conjI)
qed

lemma main_iter_idle_unlocked:
  assumes "\<not> ab_enabled (s_alb s)" "\<not> input_locked s"
  shows "main_iter L cfg s (idle_at t) = Inr (auto_help cfg s)"
  using assms
  by (simp add: main_iter_def idle_at_def blind_step_def delay_unlock_def)

theorem input_lock_monotone_witness:
  "main_loop libc_ex config_default session_off [idle_at (at_ms 0), idle_at (at_ms 50)]
      = Inr (auto_help config_default session_off)
   \<and> \<not> input_locked session_off
   \<and> \<not> input_locked (auto_help config_default session_off)"
proof -
  have off: "\<not> ab_enabled (s_alb session_off)" "\<not> input_locked session_off"
    by (simp_all add: session_off_def session_init_def blind_init_def alb_off_def alp_off_def)
  let ?s1 = "auto_help config_default session_off"
  have off1: "\<not> ab_enabled (s_alb ?s1)" "\<not> input_locked ?s1" "auto_help config_default ?s1 = ?s1"
    using off by (simp_all add: auto_help_def)
  have run: "main_loop libc_ex config_default session_off [idle_at (at_ms 0), idle_at (at_ms 50)] = Inr ?s1"
    by (simp add: main_iter_idle_unlocked [OF off] main_iter_idle_unlocked [OF off1(1,2)] off1(3))
  from input_lock_monotone [of alp_off alb_off 24 80 "at_ms 0" "at_ms 0" libc_ex config_default session_off
      "[idle_at (at_ms 0), idle_at (at_ms 50)]" ?s1] run off
  show ?thesis by simp
qed


end
